theory Spec2Isabelle
  imports Main
begin

section \<open>Data model of linked_list_hashmap.c\<close>

text \<open>
  Keys and values are opaque pointers (\<open>void *\<close>); they are modelled as natural numbers
  with \<open>0\<close> for \<open>NULL\<close>. Addresses of chain nodes are natural numbers as well, \<open>0\<close> being
  \<open>NULL\<close>.

  The bucket array holds its root nodes inline. Chain nodes are allocated one at a time
  by \<open>__allocnodes(1)\<close> in \<open>hashmap_put\<close>, linked at the tail of exactly one chain and
  freed when they are unlinked, so the nodes reachable from a slot form an acyclic list
  that shares nothing with any other slot. The \<open>next\<close> pointer of a node is
  therefore modelled as the list of the chain nodes behind it (field \<open>chain\<close>, the
  empty list being \<open>NULL\<close>), and every chain node carries its address, so that the
  raw pointer \<open>cur_linked\<close> of an iterator can be followed: a node that has been
  freed is no longer in any chain, and following a pointer to it is the error
  \<open>UseAfterFree\<close>.

  The widths of the integer fields are declared in linked_list_hashmap.h, which is not
  among the sources; \<open>count\<close> is an unbounded integer, \<open>arraySize\<close> and \<open>cur\<close> are
  natural numbers.
\<close>

datatype error = DivisionByZero | AssertionFailed | OutOfBounds | UseAfterFree

record hash_entry =
  key :: nat
  val :: nat

record hash_node =
  ety :: hash_entry
  chain :: "(nat \<times> hash_entry) list"

record hashmap =
  count :: int
  arraySize :: nat
  array :: "hash_node list"
  hash :: "nat \<Rightarrow> nat"
  compare :: "nat \<Rightarrow> nat \<Rightarrow> int"

record hashmap_iterator =
  cur :: nat
  cur_linked :: nat

definition null_entry :: hash_entry where
  "null_entry = \<lparr>key = 0, val = 0\<rparr>"

definition null_node :: hash_node where
  "null_node = \<lparr>ety = null_entry, chain = []\<rparr>"

text \<open>\<open>__allocnodes\<close>: \<open>calloc\<close> returns zeroed nodes.\<close>

definition allocnodes :: "nat \<Rightarrow> hash_node list" where
  "allocnodes n = replicate n null_node"

definition hashmap_new :: "(nat \<Rightarrow> nat) \<Rightarrow> (nat \<Rightarrow> nat \<Rightarrow> int) \<Rightarrow> nat \<Rightarrow> hashmap" where
  "hashmap_new hashf cmp initial_capacity =
     \<lparr>count = 0, arraySize = initial_capacity, array = allocnodes initial_capacity,
      hash = hashf, compare = cmp\<rparr>"

definition hashmap_count :: "hashmap \<Rightarrow> int" where
  "hashmap_count h = count h"

definition hashmap_size :: "hashmap \<Rightarrow> int" where
  "hashmap_size h = int (arraySize h)"

text \<open>\<open>&((hash_node_t *) h->array)[i]\<close>: reading a slot, out of range being an error.\<close>

definition node_at :: "hashmap \<Rightarrow> nat \<Rightarrow> error + hash_node" where
  "node_at h i = (if i < length (array h) then Inr (array h ! i) else Inl OutOfBounds)"

text \<open>The addresses of the chain nodes that are allocated, and the address
  \<open>calloc\<close> hands out for a new chain node: one that is not allocated.\<close>

definition live_addrs :: "hash_node list \<Rightarrow> nat list" where
  "live_addrs arr = concat (map (\<lambda>n. map fst (chain n)) arr)"

definition fresh_addr :: "hashmap \<Rightarrow> nat" where
  "fresh_addr h = Suc (fold max (live_addrs (array h)) 0)"

subsection \<open>Clear\<close>

fun node_empty :: "hashmap \<Rightarrow> (nat \<times> hash_entry) list \<Rightarrow> hashmap" where
  "node_empty h [] = h"
| "node_empty h (n # ns) = (let h' = node_empty h ns in h'\<lparr>count := count h' - 1\<rparr>)"

lemma node_empty_fields:
  "arraySize (node_empty h ns) = arraySize h"
  "array (node_empty h ns) = array h"
  "hash (node_empty h ns) = hash h"
  "compare (node_empty h ns) = compare h"
  "count (node_empty h ns) = count h - int (length ns)"
  by (induction ns) (auto simp: Let_def)

function clear_loop :: "hashmap \<Rightarrow> nat \<Rightarrow> error + hashmap" where
  "clear_loop h ii =
     (if ii < arraySize h then
        (case node_at h ii of
           Inl e \<Rightarrow> Inl e
         | Inr node \<Rightarrow>
             if key (ety node) = 0 then clear_loop h (ii + 1)
             else
               let h1 = node_empty h (chain node);
                   h2 = h1\<lparr>array := (array h1)[ii := node\<lparr>ety := (ety node)\<lparr>key := 0\<rparr>, chain := []\<rparr>],
                           count := count h1 - 1\<rparr>
               in if 0 \<le> count h2 then clear_loop h2 (ii + 1) else Inl AssertionFailed)
      else Inr h)"
  by pat_completeness auto
termination
  by (relation "measure (\<lambda>(h, ii). arraySize h - ii)") (auto simp: node_empty_fields)

definition hashmap_clear :: "hashmap \<Rightarrow> error + hashmap" where
  "hashmap_clear h =
     (case clear_loop h 0 of
        Inl e \<Rightarrow> Inl e
      | Inr h' \<Rightarrow> if hashmap_count h' = 0 then Inr h' else Inl AssertionFailed)"

subsection \<open>Get\<close>

definition doProbe :: "hashmap \<Rightarrow> nat \<Rightarrow> error + nat" where
  "doProbe h k = (if arraySize h = 0 then Inl DivisionByZero else Inr (hash h k mod arraySize h))"

fun get_chain :: "(nat \<Rightarrow> nat \<Rightarrow> int) \<Rightarrow> nat \<Rightarrow> hash_entry list \<Rightarrow> nat" where
  "get_chain cmp k [] = 0"
| "get_chain cmp k (e # es) = (if cmp k (key e) = 0 then val e else get_chain cmp k es)"

definition hashmap_get :: "hashmap \<Rightarrow> nat \<Rightarrow> error + nat" where
  "hashmap_get h k =
     (if hashmap_count h = 0 \<or> k = 0 then Inr 0
      else case doProbe h k of
        Inl e \<Rightarrow> Inl e
      | Inr probe \<Rightarrow>
          (case node_at h probe of
             Inl e \<Rightarrow> Inl e
           | Inr node \<Rightarrow>
               if key (ety node) = 0 then Inr 0
               else Inr (get_chain (compare h) k (ety node # map snd (chain node)))))"

definition hashmap_contains_key :: "hashmap \<Rightarrow> nat \<Rightarrow> error + bool" where
  "hashmap_contains_key h k =
     (case hashmap_get h k of Inl e \<Rightarrow> Inl e | Inr v \<Rightarrow> Inr (v \<noteq> 0))"

subsection \<open>Remove\<close>

text \<open>The walk down the chain behind the root: the first node whose key compares equal
  is unlinked (and freed); \<open>None\<close> when the end of the chain is reached.\<close>

fun remove_chain ::
  "(nat \<Rightarrow> nat \<Rightarrow> int) \<Rightarrow> nat \<Rightarrow> (nat \<times> hash_entry) list \<Rightarrow>
   (hash_entry \<times> (nat \<times> hash_entry) list) option" where
  "remove_chain cmp k [] = None"
| "remove_chain cmp k (n # ns) =
     (if cmp k (key (snd n)) \<noteq> 0 then
        (case remove_chain cmp k ns of None \<Rightarrow> None | Some (e, ns') \<Rightarrow> Some (e, n # ns'))
      else Some (snd n, ns))"

definition hashmap_remove_entry :: "hashmap \<Rightarrow> nat \<Rightarrow> error + (hash_entry \<times> hashmap)" where
  "hashmap_remove_entry h k =
     (case doProbe h k of
        Inl e \<Rightarrow> Inl e
      | Inr i \<Rightarrow>
          (case node_at h i of
             Inl e \<Rightarrow> Inl e
           | Inr n \<Rightarrow>
               if key (ety n) = 0 then Inr (null_entry, h)
               else if compare h k (key (ety n)) = 0 then
                 (let n' = (case chain n of
                              tmp # rest \<Rightarrow> \<lparr>ety = snd tmp, chain = rest\<rparr>
                            | [] \<Rightarrow> n\<lparr>ety := (ety n)\<lparr>key := 0\<rparr>\<rparr>)
                  in Inr (ety n, h\<lparr>array := (array h)[i := n'], count := count h - 1\<rparr>))
               else
                 (case remove_chain (compare h) k (chain n) of
                    None \<Rightarrow> Inr (null_entry, h)
                  | Some (e, c') \<Rightarrow>
                      Inr (e, h\<lparr>array := (array h)[i := n\<lparr>chain := c'\<rparr>],
                                count := count h - 1\<rparr>))))"

definition hashmap_remove :: "hashmap \<Rightarrow> nat \<Rightarrow> error + (nat \<times> hashmap)" where
  "hashmap_remove h k =
     (case hashmap_remove_entry h k of Inl e \<Rightarrow> Inl e | Inr (entry, h') \<Rightarrow> Inr (val entry, h'))"

subsection \<open>Put and the capacity manager\<close>

text \<open>\<open>__nodeassign\<close> on the count and the entry of the node it is given.\<close>

definition nodeassign :: "int \<Rightarrow> hash_entry \<Rightarrow> nat \<Rightarrow> nat \<Rightarrow> error + (int \<times> hash_entry)" where
  "nodeassign c e k v =
     (let c' = (if key e = 0 then c + 1 else c)
      in if c' < 32768 then Inr (c', \<lparr>key = k, val = v\<rparr>) else Inl AssertionFailed)"

text \<open>The do-while loop of \<open>hashmap_put\<close> behind the root: the value of the first node
  with an equal key is replaced; \<open>None\<close> when the tail is reached.\<close>

fun put_chain ::
  "(nat \<Rightarrow> nat \<Rightarrow> int) \<Rightarrow> nat \<Rightarrow> nat \<Rightarrow> (nat \<times> hash_entry) list \<Rightarrow>
   (nat \<times> (nat \<times> hash_entry) list) option" where
  "put_chain cmp k v [] = None"
| "put_chain cmp k v (n # ns) =
     (if cmp k (key (snd n)) = 0 then Some (val (snd n), (fst n, (snd n)\<lparr>val := v\<rparr>) # ns)
      else (case put_chain cmp k v ns of None \<Rightarrow> None | Some (p, ns') \<Rightarrow> Some (p, n # ns')))"

text \<open>\<open>hashmap_put\<close> from the probe on, after \<open>__ensurecapacity\<close> has returned.\<close>

definition put_slot :: "hashmap \<Rightarrow> nat \<Rightarrow> nat \<Rightarrow> error + (nat \<times> hashmap)" where
  "put_slot h k val_new =
     (case doProbe h k of
        Inl e \<Rightarrow> Inl e
      | Inr i \<Rightarrow>
          (case node_at h i of
             Inl e \<Rightarrow> Inl e
           | Inr node \<Rightarrow>
               if key (ety node) = 0 then
                 (case nodeassign (count h) (ety node) k val_new of
                    Inl e \<Rightarrow> Inl e
                  | Inr (c, e') \<Rightarrow>
                      Inr (0, h\<lparr>count := c, array := (array h)[i := node\<lparr>ety := e'\<rparr>]\<rparr>))
               else if compare h k (key (ety node)) = 0 then
                 Inr (val (ety node),
                      h\<lparr>array := (array h)[i := node\<lparr>ety := (ety node)\<lparr>val := val_new\<rparr>\<rparr>]\<rparr>)
               else
                 (case put_chain (compare h) k val_new (chain node) of
                    Some (val_prev, c') \<Rightarrow>
                      Inr (val_prev, h\<lparr>array := (array h)[i := node\<lparr>chain := c'\<rparr>]\<rparr>)
                  | None \<Rightarrow>
                      (case nodeassign (count h) null_entry k val_new of
                         Inl e \<Rightarrow> Inl e
                       | Inr (c, e') \<Rightarrow>
                           Inr (0, h\<lparr>count := c,
                                     array := (array h)[i := node\<lparr>chain := chain node @ [(fresh_addr h, e')]\<rparr>]\<rparr>)))))"

text \<open>
  \<open>hashmap_put\<close> calls \<open>__ensurecapacity\<close>, which calls \<open>hashmap_increase_capacity\<close>,
  which puts every entry of the old array into the new one with \<open>hashmap_put\<close>: the
  three are mutually recursive, and the two loops of \<open>hashmap_increase_capacity\<close> (over
  the old array, and down the chain of one slot) thread the map through their calls of
  \<open>hashmap_put\<close>. The comparison \<open>(float) h->count / h->arraySize < SPACERATIO\<close> is
  the exact comparison \<open>2 * count < arraySize\<close> (also for an array size of zero, where
  the quotient is NaN or infinite and the test fails for a count that is not negative).

  \<open>h->arraySize *= factor\<close> multiplies by an \<open>unsigned int\<close>, and the product is the
  \<open>unsigned int\<close> argument of \<open>__allocnodes\<close>: it wraps modulo \<open>2 ^ 32\<close>
  (\<open>mul_uint\<close>). A product below \<open>2 ^ 31\<close> also fits the field \<open>arraySize\<close> if the header
  declares it as a signed \<open>int\<close>.

  The number of entries held by an array, which bounds the recursion: the map that
  \<open>hashmap_increase_capacity\<close> fills holds fewer entries than the map it empties.
\<close>

definition mul_uint :: "nat \<Rightarrow> nat \<Rightarrow> nat" where
  "mul_uint a b = (a * b) mod 4294967296"

lemma mul_uint_code [code]: "mul_uint a b = nat ((int a * int b) mod 4294967296)"
  by (simp add: mul_uint_def nat_mod_distrib nat_mult_distrib)

definition node_weight :: "hash_node \<Rightarrow> nat" where
  "node_weight n = (if key (ety n) = 0 then 0 else 1) + length (chain n)"

definition nodes_of :: "hash_node list \<Rightarrow> nat" where
  "nodes_of arr = sum_list (map node_weight arr)"

function hashmap_put :: "hashmap \<Rightarrow> nat \<Rightarrow> nat \<Rightarrow> error + (nat \<times> hashmap)"
  and ensurecapacity :: "hashmap \<Rightarrow> error + hashmap"
  and hashmap_increase_capacity :: "hashmap \<Rightarrow> nat \<Rightarrow> error + hashmap"
  and rehash_array :: "hashmap \<Rightarrow> hash_node list \<Rightarrow> nat \<Rightarrow> nat \<Rightarrow> error + hashmap"
  and rehash_chain :: "hashmap \<Rightarrow> (nat \<times> hash_entry) list \<Rightarrow> error + hashmap"
where
  "hashmap_put h k val_new =
     (if k = 0 \<or> val_new = 0 then Inr (0, h)
      else case ensurecapacity h of
        Inl e \<Rightarrow> Inl e
      | Inr h1 \<Rightarrow> put_slot h1 k val_new)"
| "ensurecapacity h =
     (if 2 * count h < int (arraySize h) then Inr h else hashmap_increase_capacity h 2)"
| "hashmap_increase_capacity h factor =
     rehash_array
       (h\<lparr>arraySize := mul_uint (arraySize h) factor,
          array := allocnodes (mul_uint (arraySize h) factor), count := 0\<rparr>)
       (array h) (arraySize h) 0"
| "rehash_array h array_old asize_old ii =
     (if ii < asize_old then
        (if length array_old \<le> ii then Inl OutOfBounds
         else
           let node = array_old ! ii in
           if key (ety node) = 0 then rehash_array h array_old asize_old (ii + 1)
           else
             (case hashmap_put h (key (ety node)) (val (ety node)) of
                Inl e \<Rightarrow> Inl e
              | Inr (r, h1) \<Rightarrow>
                  (case rehash_chain h1 (chain node) of
                     Inl e \<Rightarrow> Inl e
                   | Inr h2 \<Rightarrow> rehash_array h2 array_old asize_old (ii + 1))))
      else Inr h)"
| "rehash_chain h [] = Inr h"
| "rehash_chain h (node # ns) =
     (case hashmap_put h (key (snd node)) (val (snd node)) of
        Inl e \<Rightarrow> Inl e
      | Inr (r, h1) \<Rightarrow>
          if key (snd node) = 0 then Inl AssertionFailed else rehash_chain h1 ns)"
  by pat_completeness auto


lemma nodes_of_update:
  "i < length arr \<Longrightarrow> nodes_of (arr[i := n]) + node_weight (arr ! i) = nodes_of arr + node_weight n"
proof (induction arr arbitrary: i)
  case Nil
  then show ?case by simp
next
  case (Cons a arr)
  then show ?case by (cases i) (auto simp: nodes_of_def)
qed

lemma nodes_of_update_le:
  "i < length arr \<Longrightarrow> node_weight n \<le> Suc (node_weight (arr ! i)) \<Longrightarrow>
   nodes_of (arr[i := n]) \<le> Suc (nodes_of arr)"
  using nodes_of_update[of i arr n] by linarith

lemma nodes_of_allocnodes: "nodes_of (allocnodes n) = 0"
  by (simp add: nodes_of_def allocnodes_def null_node_def null_entry_def node_weight_def)

lemma nodes_of_take: "nodes_of (take n arr) \<le> nodes_of arr"
proof -
  have "nodes_of arr = nodes_of (take n arr) + nodes_of (drop n arr)"
    unfolding nodes_of_def by (metis append_take_drop_id map_append sum_list_append)
  then show ?thesis by simp
qed

lemma nodes_of_drop_Suc:
  "ii < length arr \<Longrightarrow>
   nodes_of (drop ii arr) = node_weight (arr ! ii) + nodes_of (drop (Suc ii) arr)"
  by (simp add: nodes_of_def flip: Cons_nth_drop_Suc)

lemma put_chain_length: "put_chain cmp k v ns = Some (p, ns') \<Longrightarrow> length ns' = length ns"
  by (induction ns arbitrary: p ns') (auto split: if_splits option.splits)

lemma put_chain_length_le:
  "put_chain cmp k v ns = Some (p, ns') \<Longrightarrow> length ns' \<le> Suc (length ns)"
  by (simp add: put_chain_length)

lemma put_slot_nodes:
  assumes "put_slot h k v = Inr (r, h')"
  shows "nodes_of (array h') \<le> Suc (nodes_of (array h))"
  using assms
  by (auto simp: put_slot_def doProbe_def node_at_def nodeassign_def Let_def node_weight_def
           split: if_splits sum.splits option.splits
           intro!: nodes_of_update_le put_chain_length_le)

lemma nodes_bounds:
  "hashmap_put_ensurecapacity_hashmap_increase_capacity_rehash_array_rehash_chain_dom (Inl (Inl (h, k, v)))
     \<Longrightarrow> (\<forall>r h'. hashmap_put h k v = Inr (r, h') \<longrightarrow> nodes_of (array h') \<le> Suc (nodes_of (array h)))"
  "hashmap_put_ensurecapacity_hashmap_increase_capacity_rehash_array_rehash_chain_dom (Inl (Inr h1))
     \<Longrightarrow> (\<forall>h'. ensurecapacity h1 = Inr h' \<longrightarrow> nodes_of (array h') \<le> nodes_of (array h1))"
  "hashmap_put_ensurecapacity_hashmap_increase_capacity_rehash_array_rehash_chain_dom (Inr (Inl (h2, f)))
     \<Longrightarrow> (\<forall>h'. hashmap_increase_capacity h2 f = Inr h' \<longrightarrow> nodes_of (array h') \<le> nodes_of (array h2))"
  "hashmap_put_ensurecapacity_hashmap_increase_capacity_rehash_array_rehash_chain_dom (Inr (Inr (Inl (h3, old, n, ii))))
     \<Longrightarrow> (\<forall>h'. rehash_array h3 old n ii = Inr h' \<longrightarrow>
            nodes_of (array h') \<le> nodes_of (array h3) + nodes_of (drop ii (take n old)))"
  "hashmap_put_ensurecapacity_hashmap_increase_capacity_rehash_array_rehash_chain_dom (Inr (Inr (Inr (h4, ns))))
     \<Longrightarrow> (\<forall>h'. rehash_chain h4 ns = Inr h' \<longrightarrow> nodes_of (array h') \<le> nodes_of (array h4) + length ns)"
proof (induct rule: hashmap_put_ensurecapacity_hashmap_increase_capacity_rehash_array_rehash_chain.pinduct)
  case (1 h k val_new)
  then show ?case
    by (auto simp: hashmap_put.psimps split: if_splits sum.splits dest!: put_slot_nodes)
next
  case (2 h)
  then show ?case by (auto simp: ensurecapacity.psimps split: if_splits)
next
  case (3 h factor)
  then show ?case
    using nodes_of_take[of "arraySize h" "array h"]
    by (auto simp: hashmap_increase_capacity.psimps nodes_of_allocnodes)
next
  case (4 h array_old asize_old ii)
  show ?case
  proof (intro allI impI)
    fix h' assume r: "rehash_array h array_old asize_old ii = Inr h'"
    show "nodes_of (array h') \<le> nodes_of (array h) + nodes_of (drop ii (take asize_old array_old))"
    proof (cases "ii < asize_old")
      case False
      with r 4(1) show ?thesis by (simp add: rehash_array.psimps)
    next
      case lt: True
      with r 4(1) have inb: "\<not> length array_old \<le> ii"
        by (auto simp: rehash_array.psimps split: if_splits)
      then have il: "ii < length (take asize_old array_old)" using lt by simp
      let ?x = "array_old ! ii"
      have dr: "nodes_of (drop ii (take asize_old array_old)) =
          node_weight ?x + nodes_of (drop (Suc ii) (take asize_old array_old))"
        using nodes_of_drop_Suc[OF il] lt by simp
      show ?thesis
      proof (cases "key (ety ?x) = 0")
        case True
        with r 4(1) lt inb have "rehash_array h array_old asize_old (ii + 1) = Inr h'"
          by (simp add: rehash_array.psimps Let_def)
        with 4(2)[OF lt inb refl True] dr show ?thesis by (auto simp: node_weight_def)
      next
        case False
        with r 4(1) lt inb obtain r1 h1 h2 where
          p: "hashmap_put h (key (ety ?x)) (val (ety ?x)) = Inr (r1, h1)"
          and c: "rehash_chain h1 (chain ?x) = Inr h2"
          and a: "rehash_array h2 array_old asize_old (ii + 1) = Inr h'"
          by (auto simp: rehash_array.psimps Let_def split: sum.splits)
        from 4(3)[OF lt inb refl False] p have b1: "nodes_of (array h1) \<le> Suc (nodes_of (array h))" by blast
        from 4(4)[OF lt inb refl False p refl] c
        have b2: "nodes_of (array h2) \<le> nodes_of (array h1) + length (chain ?x)" by blast
        from 4(5)[OF lt inb refl False p refl c] a
        have b3: "nodes_of (array h') \<le> nodes_of (array h2) + nodes_of (drop (Suc ii) (take asize_old array_old))"
          by simp
        from b1 b2 b3 dr False show ?thesis by (simp add: node_weight_def)
      qed
    qed
  qed
next
  case (5 h)
  then show ?case by (simp add: rehash_chain.psimps)
next
  case (6 h node ns)
  show ?case
  proof (intro allI impI)
    fix h' assume r: "rehash_chain h (node # ns) = Inr h'"
    with 6(1) obtain r1 h1 where p: "hashmap_put h (key (snd node)) (val (snd node)) = Inr (r1, h1)"
      and nz: "key (snd node) \<noteq> 0" and c: "rehash_chain h1 ns = Inr h'"
      by (auto simp: rehash_chain.psimps split: sum.splits if_splits)
    from 6(2) p have "nodes_of (array h1) \<le> Suc (nodes_of (array h))" by blast
    moreover from 6(3)[OF p refl nz] c have "nodes_of (array h') \<le> nodes_of (array h1) + length ns" by blast
    ultimately show "nodes_of (array h') \<le> nodes_of (array h) + length (node # ns)" by simp
  qed
qed

termination hashmap_put
proof (relation "measures [
    (\<lambda>x. case x of
       Inl (Inl (h, k, v)) \<Rightarrow> nodes_of (array h)
     | Inl (Inr h) \<Rightarrow> nodes_of (array h)
     | Inr (Inl (h, f)) \<Rightarrow> nodes_of (array h)
     | Inr (Inr (Inl (h, old, n, ii))) \<Rightarrow> nodes_of (array h) + nodes_of (drop ii (take n old))
     | Inr (Inr (Inr (h, ns))) \<Rightarrow> nodes_of (array h) + length ns),
    (\<lambda>x. case x of
       Inl (Inl (h, k, v)) \<Rightarrow> 3
     | Inl (Inr h) \<Rightarrow> 2
     | Inr (Inl (h, f)) \<Rightarrow> 1
     | Inr (Inr (Inl (h, old, n, ii))) \<Rightarrow> 0
     | Inr (Inr (Inr (h, ns))) \<Rightarrow> 0),
    (\<lambda>x. case x of
       Inl (Inl (h, k, v)) \<Rightarrow> 0
     | Inl (Inr h) \<Rightarrow> 0
     | Inr (Inl (h, f)) \<Rightarrow> 0
     | Inr (Inr (Inl (h, old, n, ii))) \<Rightarrow> 1
     | Inr (Inr (Inr (h, ns))) \<Rightarrow> 0),
    (\<lambda>x. case x of
       Inl (Inl (h, k, v)) \<Rightarrow> 0
     | Inl (Inr h) \<Rightarrow> 0
     | Inr (Inl (h, f)) \<Rightarrow> 0
     | Inr (Inr (Inl (h, old, n, ii))) \<Rightarrow> n - ii
     | Inr (Inr (Inr (h, ns))) \<Rightarrow> length ns)]", goal_cases)
  case 1
  show ?case by simp
next
  case 2
  show ?case by simp
next
  case 3
  show ?case by simp
next
  case (4 h factor)
  show ?case using nodes_of_take[of "arraySize h" "array h"]
    by (auto simp: nodes_of_allocnodes)
next
  case (5 h array_old asize_old ii x)
  then show ?case
    using nodes_of_drop_Suc[of ii "take asize_old array_old"]
    by (auto simp: node_weight_def)
next
  case (6 h array_old asize_old ii x)
  then show ?case
    using nodes_of_drop_Suc[of ii "take asize_old array_old"]
    by (auto simp: node_weight_def)
next
  case (7 h array_old asize_old ii x b xa y)
  then show ?case
    using nodes_of_drop_Suc[of ii "take asize_old array_old"] nodes_bounds(1)[of h "key (ety x)" "val (ety x)"]
    by (auto simp: node_weight_def)
next
  case (8 h array_old asize_old ii x b xa y ba)
  then show ?case
    using nodes_of_drop_Suc[of ii "take asize_old array_old"] nodes_bounds(1)[of h "key (ety x)" "val (ety x)"]
      nodes_bounds(5)[of y "chain x"]
    by (auto simp: node_weight_def)
next
  case (9 h node ns)
  then show ?case by simp
next
  case (10 h node ns b x y)
  then show ?case
    using nodes_bounds(1)[of h "key (snd node)" "val (snd node)"]
    by auto
qed


subsection \<open>Iterator\<close>

text \<open>Following a pointer to a chain node: the node at that address, with the chain behind
  it as its \<open>next\<close>. A node that was freed is in no chain.\<close>

fun find_chain ::
  "nat \<Rightarrow> (nat \<times> hash_entry) list \<Rightarrow> (hash_entry \<times> (nat \<times> hash_entry) list) option" where
  "find_chain a [] = None"
| "find_chain a (n # ns) = (if fst n = a then Some (snd n, ns) else find_chain a ns)"

fun find_node ::
  "nat \<Rightarrow> hash_node list \<Rightarrow> (hash_entry \<times> (nat \<times> hash_entry) list) option" where
  "find_node a [] = None"
| "find_node a (s # ss) =
     (case find_chain a (chain s) of Some r \<Rightarrow> Some r | None \<Rightarrow> find_node a ss)"

definition deref :: "hashmap \<Rightarrow> nat \<Rightarrow> error + hash_node" where
  "deref h a =
     (case find_node a (array h) of
        None \<Rightarrow> Inl UseAfterFree
      | Some (e, rest) \<Rightarrow> Inr \<lparr>ety = e, chain = rest\<rparr>)"

text \<open>The value of a \<open>next\<close> pointer: the address of the first node of the chain.\<close>

definition next_ptr :: "(nat \<times> hash_entry) list \<Rightarrow> nat" where
  "next_ptr c = (case c of [] \<Rightarrow> 0 | n # ns \<Rightarrow> fst n)"

text \<open>The loop \<open>for (; iter->cur < h->arraySize; iter->cur++)\<close> of
  \<open>hashmap_iterator_peek\<close> and of \<open>hashmap_iterator_next\<close>, which leaves at the first
  slot with a key: the value of \<open>iter->cur\<close> where it stops.\<close>

function skip_empty :: "hashmap \<Rightarrow> nat \<Rightarrow> error + nat" where
  "skip_empty h c =
     (if c < arraySize h then
        (case node_at h c of
           Inl e \<Rightarrow> Inl e
         | Inr node \<Rightarrow> if key (ety node) \<noteq> 0 then Inr c else skip_empty h (c + 1))
      else Inr c)"
  by pat_completeness auto
termination
  by (relation "measure (\<lambda>(h, c). arraySize h - c)") auto

definition hashmap_iterator_peek ::
  "hashmap \<Rightarrow> hashmap_iterator \<Rightarrow> error + (nat \<times> hashmap_iterator)" where
  "hashmap_iterator_peek h iter =
     (if cur_linked iter = 0 then
        (case skip_empty h (cur iter) of
           Inl e \<Rightarrow> Inl e
         | Inr c \<Rightarrow>
             if c < arraySize h then
               (case node_at h c of
                  Inl e \<Rightarrow> Inl e
                | Inr node \<Rightarrow> Inr (key (ety node), iter\<lparr>cur := c\<rparr>))
             else Inr (0, iter\<lparr>cur := c\<rparr>))
      else
        (case deref h (cur_linked iter) of
           Inl e \<Rightarrow> Inl e
         | Inr node \<Rightarrow> Inr (key (ety node), iter)))"

definition hashmap_iterator_has_next ::
  "hashmap \<Rightarrow> hashmap_iterator \<Rightarrow> error + (bool \<times> hashmap_iterator)" where
  "hashmap_iterator_has_next h iter =
     (case hashmap_iterator_peek h iter of
        Inl e \<Rightarrow> Inl e
      | Inr (k, iter') \<Rightarrow> Inr (k \<noteq> 0, iter'))"

definition hashmap_iterator_next ::
  "hashmap \<Rightarrow> hashmap_iterator \<Rightarrow> error + (nat \<times> hashmap_iterator)" where
  "hashmap_iterator_next h iter =
     (if cur_linked iter \<noteq> 0 then
        (case node_at h (cur iter) of
           Inl e \<Rightarrow> Inl e
         | Inr n_parent \<Rightarrow>
             if chain n_parent = [] then
               Inr (key (ety n_parent), iter\<lparr>cur_linked := 0, cur := cur iter + 1\<rparr>)
             else
               (case deref h (cur_linked iter) of
                  Inl e \<Rightarrow> Inl e
                | Inr n \<Rightarrow>
                    Inr (key (ety n),
                         iter\<lparr>cur := (if chain n = [] then cur iter + 1 else cur iter),
                              cur_linked := next_ptr (chain n)\<rparr>)))
      else
        (case skip_empty h (cur iter) of
           Inl e \<Rightarrow> Inl e
         | Inr c \<Rightarrow>
             if arraySize h = c then Inr (0, iter\<lparr>cur := c\<rparr>)
             else
               (case node_at h c of
                  Inl e \<Rightarrow> Inl e
                | Inr n \<Rightarrow>
                    if chain n \<noteq> [] then
                      Inr (key (ety n), iter\<lparr>cur := c, cur_linked := next_ptr (chain n)\<rparr>)
                    else Inr (key (ety n), iter\<lparr>cur := c + 1\<rparr>))))"

definition hashmap_iterator :: "hashmap \<Rightarrow> hashmap_iterator" where
  "hashmap_iterator h = \<lparr>cur = 0, cur_linked = 0\<rparr>"

text \<open>The caller's loop \<open>while ((k = hashmap_iterator_next(h, &iter))) ...\<close>: the keys
  that \<open>hashmap_iterator_next\<close> returns until it returns \<open>NULL\<close>. The number of calls
  is bounded by \<open>fuel\<close>; \<open>None\<close> means that the bound was reached before \<open>NULL\<close> was
  returned.\<close>

fun iterate :: "nat \<Rightarrow> hashmap \<Rightarrow> hashmap_iterator \<Rightarrow> (error + nat list) option" where
  "iterate 0 h iter = None"
| "iterate (Suc fuel) h iter =
     (case hashmap_iterator_next h iter of
        Inl e \<Rightarrow> Some (Inl e)
      | Inr (k, iter') \<Rightarrow>
          if k = 0 then Some (Inr [])
          else
            (case iterate fuel h iter' of
               None \<Rightarrow> None
             | Some (Inl e) \<Rightarrow> Some (Inl e)
             | Some (Inr ks) \<Rightarrow> Some (Inr (k # ks))))"

declare hashmap_put.simps [simp del] ensurecapacity.simps [simp del]
  hashmap_increase_capacity.simps [simp del] rehash_array.simps [simp del]
  clear_loop.simps [simp del] skip_empty.simps [simp del]

section \<open>Well-formed maps\<close>

text \<open>
  The entries of a slot, root first, in the order in which the chain links them; a slot
  whose root key is \<open>NULL\<close> is empty. \<open>lookup\<close> is the association the map holds for a
  key: the first entry with that key in the slot the key probes to.

  A map is \<open>valid\<close> when it satisfies the invariants of the data model: the array has
  \<open>arraySize\<close> slots and at least one, \<open>count\<close> is the number of entries and is below
  the ceiling asserted by \<open>__nodeassign\<close>, the comparison function returns zero exactly
  for equal keys, and in every slot the keys are distinct, no key or value is \<open>NULL\<close>,
  every key hashes to the slot, and an empty root has no chain. \<open>addrs_ok\<close> says that
  the chain nodes have distinct addresses, none of them \<open>NULL\<close>.
\<close>

definition slot_entries :: "hash_node \<Rightarrow> hash_entry list" where
  "slot_entries n = (if key (ety n) = 0 then [] else ety n # map snd (chain n))"

definition entries :: "hash_node list \<Rightarrow> hash_entry list" where
  "entries arr = concat (map slot_entries arr)"

definition kv :: "hash_entry \<Rightarrow> nat \<times> nat" where
  "kv e = (key e, val e)"

definition lookup :: "hashmap \<Rightarrow> nat \<Rightarrow> nat option" where
  "lookup h k = map_of (map kv (slot_entries (array h ! (hash h k mod arraySize h)))) k"

definition wf_slot :: "(nat \<Rightarrow> nat) \<Rightarrow> nat \<Rightarrow> nat \<Rightarrow> hash_node \<Rightarrow> bool" where
  "wf_slot hashf N i n \<longleftrightarrow>
     (key (ety n) = 0 \<longrightarrow> chain n = []) \<and>
     distinct (map key (slot_entries n)) \<and>
     (\<forall>e \<in> set (slot_entries n). key e \<noteq> 0 \<and> val e \<noteq> 0 \<and> hashf (key e) mod N = i)"

definition valid :: "hashmap \<Rightarrow> bool" where
  "valid h \<longleftrightarrow>
     length (array h) = arraySize h \<and> 0 < arraySize h \<and>
     count h = int (length (entries (array h))) \<and> count h < 32768 \<and>
     (\<forall>a b. compare h a b = 0 \<longleftrightarrow> a = b) \<and>
     (\<forall>i < arraySize h. wf_slot (hash h) (arraySize h) i (array h ! i))"

definition addrs_ok :: "hashmap \<Rightarrow> bool" where
  "addrs_ok h \<longleftrightarrow> distinct (live_addrs (array h)) \<and> 0 \<notin> set (live_addrs (array h))"

fun upd_entries :: "nat \<Rightarrow> nat \<Rightarrow> hash_entry list \<Rightarrow> hash_entry list" where
  "upd_entries k v [] = [\<lparr>key = k, val = v\<rparr>]"
| "upd_entries k v (e # es) = (if key e = k then e\<lparr>val := v\<rparr> # es else e # upd_entries k v es)"

definition upd_all :: "hash_entry list \<Rightarrow> (nat \<rightharpoonup> nat) \<Rightarrow> (nat \<rightharpoonup> nat)" where
  "upd_all es m = fold (\<lambda>e m. m(key e \<mapsto> val e)) es m"

definition post :: "hashmap \<Rightarrow> hashmap \<Rightarrow> (nat \<rightharpoonup> nat) \<Rightarrow> bool" where
  "post h h' m \<longleftrightarrow>
     valid h' \<and> addrs_ok h' \<and> lookup h' = m \<and> hash h' = hash h \<and> compare h' = compare h"

definition wellformed :: "hashmap \<Rightarrow> bool" where
  "wellformed h \<longleftrightarrow> valid h \<and> addrs_ok h"

text \<open>A hash function and a comparison function for concrete maps: the key itself,
  and equality of keys.\<close>

definition hash_id :: "nat \<Rightarrow> nat" where
  "hash_id x = x"

definition cmp_eq :: "nat \<Rightarrow> nat \<Rightarrow> int" where
  "cmp_eq a b = (if a = b then 0 else 1)"

text \<open>A map with a chain: keys 1 and 9 share slot 1 of eight, key 2 is in slot 2.\<close>

definition example_map :: hashmap where
  "example_map =
     \<lparr>count = 3, arraySize = 8,
      array = [null_node,
               \<lparr>ety = \<lparr>key = 1, val = 10\<rparr>, chain = [(1, \<lparr>key = 9, val = 90\<rparr>)]\<rparr>,
               \<lparr>ety = \<lparr>key = 2, val = 20\<rparr>, chain = []\<rparr>,
               null_node, null_node, null_node, null_node, null_node],
      hash = hash_id, compare = cmp_eq\<rparr>"

fun del_entries :: "nat \<Rightarrow> hash_entry list \<Rightarrow> hash_entry list" where
  "del_entries k [] = []"
| "del_entries k (e # es) = (if key e = k then es else e # del_entries k es)"

text \<open>The caller's sequence of \<open>hashmap_put\<close> calls, stopping at the first that fails.\<close>

fun puts :: "hashmap \<Rightarrow> (nat \<times> nat) list \<Rightarrow> error + hashmap" where
  "puts h [] = Inr h"
| "puts h (p # ps) =
     (case hashmap_put h (fst p) (snd p) of Inl e \<Rightarrow> Inl e | Inr (r, h') \<Rightarrow> puts h' ps)"

text \<open>Which node is linked where, and which key it holds: the root key of a slot and the
  addresses and keys of its chain nodes, in the order of the chain.\<close>

definition shape :: "hash_node \<Rightarrow> nat \<times> (nat \<times> nat) list" where
  "shape n = (key (ety n), map (\<lambda>c. (fst c, key (snd c))) (chain n))"

text \<open>The position of an iterator in a map, as the keys it has yet to return: with no chain
  pointer, the keys of the slots from \<open>cur\<close> on; with a chain pointer, which is then the
  address of a node in the chain of slot \<open>cur\<close>, the keys of the chain from that node on
  and of the slots behind \<open>cur\<close>.\<close>

definition at_position :: "hashmap \<Rightarrow> hashmap_iterator \<Rightarrow> nat list \<Rightarrow> bool" where
  "at_position h iter ks \<longleftrightarrow>
     (if cur_linked iter = 0 then
        cur iter \<le> arraySize h \<and> ks = map key (entries (drop (cur iter) (array h)))
      else
        cur iter < arraySize h \<and>
        (\<exists>j < length (chain (array h ! cur iter)).
           fst (chain (array h ! cur iter) ! j) = cur_linked iter \<and>
           ks = map (key \<circ> snd) (drop j (chain (array h ! cur iter))) @
                map key (entries (drop (Suc (cur iter)) (array h)))))"

section \<open>Properties\<close>

lemma entries_update:
  "i < length arr \<Longrightarrow>
   entries (arr[i := n]) = entries (take i arr) @ slot_entries n @ entries (drop (Suc i) arr)"
  by (simp add: entries_def upd_conv_take_nth_drop)

lemma entries_nth:
  "i < length arr \<Longrightarrow>
   entries arr = entries (take i arr) @ slot_entries (arr ! i) @ entries (drop (Suc i) arr)"
  using entries_update[of i arr "arr ! i"] by simp

lemma length_entries_update:
  "i < length arr \<Longrightarrow>
   int (length (entries (arr[i := n]))) =
   int (length (entries arr)) - int (length (slot_entries (arr ! i))) + int (length (slot_entries n))"
  using entries_nth[of i arr] entries_update[of i arr n] by simp

lemma entries_mem:
  "e \<in> set (entries arr) \<longleftrightarrow> (\<exists>i < length arr. e \<in> set (slot_entries (arr ! i)))"
proof -
  have "e \<in> set (entries arr) \<longleftrightarrow> (\<exists>n \<in> set arr. e \<in> set (slot_entries n))"
    by (auto simp: entries_def)
  also have "\<dots> \<longleftrightarrow> (\<exists>i < length arr. e \<in> set (slot_entries (arr ! i)))"
    by (metis in_set_conv_nth)
  finally show ?thesis .
qed

lemma get_chain_map_of:
  "(\<forall>a b. cmp a b = 0 \<longleftrightarrow> a = b) \<Longrightarrow>
   get_chain cmp k es = (case map_of (map kv es) k of None \<Rightarrow> 0 | Some v \<Rightarrow> v)"
  by (induction es) (auto simp: kv_def)

lemma valid_probe: "valid h \<Longrightarrow> hash h k mod arraySize h < length (array h)"
  by (simp add: valid_def)

lemma valid_slot: "valid h \<Longrightarrow> i < arraySize h \<Longrightarrow> wf_slot (hash h) (arraySize h) i (array h ! i)"
  by (simp add: valid_def)

lemma valid_count_0: "valid h \<Longrightarrow> count h = 0 \<Longrightarrow> i < arraySize h \<Longrightarrow> slot_entries (array h ! i) = []"
  by (auto simp: valid_def entries_def)

lemma hashmap_get_lookup:
  assumes "valid h"
  shows "hashmap_get h k = Inr (case lookup h k of None \<Rightarrow> 0 | Some v \<Rightarrow> v)"
proof -
  let ?i = "hash h k mod arraySize h"
  have i: "?i < length (array h)" "?i < arraySize h" using assms by (simp_all add: valid_def)
  have cmp: "\<forall>a b. compare h a b = 0 \<longleftrightarrow> a = b" using assms by (simp add: valid_def)
  have nz: "arraySize h \<noteq> 0" using assms by (simp add: valid_def)
  have k0: "lookup h 0 = None" if "k = 0"
    using valid_slot[OF assms i(2)] that
    by (auto simp: lookup_def wf_slot_def map_of_eq_None_iff kv_def image_iff)
  show ?thesis
  proof (cases "count h = 0 \<or> k = 0")
    case True
    then show ?thesis
      using valid_count_0[OF assms _ i(2)] k0
      by (auto simp: hashmap_get_def hashmap_count_def lookup_def)
  next
    case False
    then show ?thesis
      using i nz get_chain_map_of[OF cmp, of k "slot_entries (array h ! ?i)"]
      by (auto simp: hashmap_get_def hashmap_count_def lookup_def doProbe_def node_at_def slot_entries_def)
  qed
qed

lemma map_of_upd_entries:
  "map_of (map kv (upd_entries k v es)) = (map_of (map kv es))(k \<mapsto> v)"
  by (induction es) (auto simp: kv_def fun_eq_iff)

lemma keys_upd_entries:
  "map key (upd_entries k v es) = (if k \<in> key ` set es then map key es else map key es @ [k])"
  by (induction es) auto

lemma length_upd_entries:
  "length (upd_entries k v es) = (if k \<in> key ` set es then length es else Suc (length es))"
  by (induction es) auto

lemma vals_upd_entries:
  "e \<in> set (upd_entries k v es) \<Longrightarrow> e \<in> set es \<or> (key e = k \<and> val e = v)"
  by (induction es) (auto split: if_splits)

lemma key_in_upd_entries:
  "e \<in> set (upd_entries k v es) \<Longrightarrow> key e = k \<or> e \<in> set es"
  by (induction es) (auto split: if_splits)

lemma map_of_kv_None: "map_of (map kv es) k = None \<longleftrightarrow> k \<notin> key ` set es"
  by (induction es) (auto simp: kv_def)

lemma put_chain_None:
  assumes "\<forall>a b. cmp a b = 0 \<longleftrightarrow> a = b"
  shows "put_chain cmp k v c = None \<longleftrightarrow> k \<notin> key ` set (map snd c)"
  using assms by (induction c) (auto split: option.splits)

lemma upd_entries_absent:
  "k \<notin> key ` set es \<Longrightarrow> upd_entries k v es = es @ [\<lparr>key = k, val = v\<rparr>]"
  by (induction es) auto

lemma put_chain_Some:
  assumes "\<forall>a b. cmp a b = 0 \<longleftrightarrow> a = b" "put_chain cmp k v c = Some (p, c')"
  shows "map snd c' = upd_entries k v (map snd c) \<and> map fst c' = map fst c \<and>
         map_of (map kv (map snd c)) k = Some p"
  using assms
  by (induction c arbitrary: p c') (auto split: option.splits if_splits simp: kv_def)

text \<open>What put_slot does to the slot it probes.\<close>

lemma put_slot_char:
  assumes val: "valid h" and k: "k \<noteq> 0" and v: "v \<noteq> 0"
    and room: "lookup h k \<noteq> None \<or> count h < 32767"
  defines "i \<equiv> hash h k mod arraySize h"
  shows "\<exists>n' c'. put_slot h k v =
            Inr (case lookup h k of None \<Rightarrow> 0 | Some x \<Rightarrow> x, h\<lparr>count := c', array := (array h)[i := n']\<rparr>) \<and>
          c' = (if lookup h k = None then count h + 1 else count h) \<and>
          slot_entries n' = upd_entries k v (slot_entries (array h ! i)) \<and>
          key (ety n') \<noteq> 0 \<and>
          map fst (chain n') = map fst (chain (array h ! i)) @
             (if key (ety (array h ! i)) \<noteq> 0 \<and> lookup h k = None then [fresh_addr h] else [])"
proof -
  let ?n = "array h ! i"
  have i: "i < length (array h)" and nz: "arraySize h \<noteq> 0"
    using val by (simp_all add: valid_def i_def)
  have cmp: "\<forall>a b. compare h a b = 0 \<longleftrightarrow> a = b" using val by (simp add: valid_def)
  have wf: "wf_slot (hash h) (arraySize h) i ?n" using val i by (simp add: valid_def)
  have lk: "lookup h k = map_of (map kv (slot_entries ?n)) k" by (simp add: lookup_def i_def)
  have h_eq: "h\<lparr>count := count h, array := a\<rparr> = h\<lparr>array := a\<rparr>" for a by simp
  show ?thesis
  proof (cases "key (ety ?n) = 0")
    case True
    then have ch: "chain ?n = []" using wf by (simp add: wf_slot_def)
    have none: "lookup h k = None" using True by (simp add: lk slot_entries_def)
    with room have c: "count h < 32767" by simp
    show ?thesis
      apply (rule exI[of _ "?n\<lparr>ety := \<lparr>key = k, val = v\<rparr>\<rparr>"])
      apply (rule exI[of _ "count h + 1"])
      using True none c i nz k ch
      by (simp add: put_slot_def doProbe_def node_at_def nodeassign_def Let_def i_def[symmetric]
            slot_entries_def)
  next
    case root: False
    show ?thesis
    proof (cases "key (ety ?n) = k")
      case True
      have some: "lookup h k = Some (val (ety ?n))" using True root by (simp add: lk slot_entries_def kv_def)
      show ?thesis
        apply (rule exI[of _ "?n\<lparr>ety := (ety ?n)\<lparr>val := v\<rparr>\<rparr>"])
        apply (rule exI[of _ "count h"])
        using True root some i nz k cmp
        by (simp add: put_slot_def doProbe_def node_at_def Let_def i_def[symmetric] slot_entries_def)
    next
      case neq: False
      show ?thesis
      proof (cases "put_chain (compare h) k v (chain ?n)")
        case None
        then have absent: "k \<notin> key ` set (map snd (chain ?n))" using put_chain_None[OF cmp] by blast
        then have "map_of (map kv (map snd (chain ?n))) k = None"
          by (simp only: map_of_kv_None not_False_eq_True)
        then have none: "lookup h k = None" using neq root
          by (simp add: lk slot_entries_def kv_def)
        with room have c: "count h < 32767" by simp
        show ?thesis
          apply (rule exI[of _ "?n\<lparr>chain := chain ?n @ [(fresh_addr h, \<lparr>key = k, val = v\<rparr>)]\<rparr>"])
          apply (rule exI[of _ "count h + 1"])
          using None neq root none c i nz k cmp upd_entries_absent[OF absent, of v]
          by (simp add: put_slot_def doProbe_def node_at_def nodeassign_def Let_def i_def[symmetric]
                slot_entries_def null_entry_def)
      next
        case (Some pc)
        obtain p c' where pc: "pc = (p, c')" by (cases pc)
        note S = put_chain_Some[OF cmp Some[unfolded pc]]
        have some: "lookup h k = Some p" using neq root S by (simp add: lk slot_entries_def kv_def)
        show ?thesis
          apply (rule exI[of _ "?n\<lparr>chain := c'\<rparr>"])
          apply (rule exI[of _ "count h"])
          using Some pc neq root some i nz k cmp S
          by (simp add: put_slot_def doProbe_def node_at_def Let_def i_def[symmetric] slot_entries_def)
      qed
    qed
  qed
qed

lemma valid_update_slot:
  assumes "valid h" "i < arraySize h" "wf_slot (hash h) (arraySize h) i n'"
    and "c' = count h - int (length (slot_entries (array h ! i))) + int (length (slot_entries n'))"
    and "c' < 32768"
  shows "valid (h\<lparr>count := c', array := (array h)[i := n']\<rparr>)"
  using assms
  by (auto simp: valid_def length_entries_update nth_list_update)

lemma lookup_update_slot:
  "i < length (array h) \<Longrightarrow>
   lookup (h\<lparr>count := c', array := (array h)[i := n']\<rparr>) k' =
     (if hash h k' mod arraySize h = i then map_of (map kv (slot_entries n')) k' else lookup h k')"
  by (simp add: lookup_def)

lemma live_addrs_update:
  "i < length arr \<Longrightarrow>
   live_addrs (arr[i := n]) = live_addrs (take i arr) @ map fst (chain n) @ live_addrs (drop (Suc i) arr)"
  by (simp add: live_addrs_def upd_conv_take_nth_drop)

lemma live_addrs_nth:
  "i < length arr \<Longrightarrow>
   live_addrs arr = live_addrs (take i arr) @ map fst (chain (arr ! i)) @ live_addrs (drop (Suc i) arr)"
  using live_addrs_update[of i arr "arr ! i"] by simp

lemma fold_max_ge: "(x::nat) \<in> set xs \<Longrightarrow> x \<le> fold max xs a"
proof (induction xs arbitrary: a)
  case Nil
  then show ?case by simp
next
  case (Cons y ys)
  have mono: "b \<le> fold max ys b" for b :: nat
    by (induction ys arbitrary: b) (auto intro: order_trans[OF max.cobounded2])
  from Cons show ?case
    by (auto intro: order_trans[OF max.cobounded1 mono])
qed

lemma fresh_addr_fresh: "fresh_addr h \<notin> set (live_addrs (array h))" "fresh_addr h \<noteq> 0"
  using fold_max_ge[of "fresh_addr h" "live_addrs (array h)" 0]
  by (auto simp: fresh_addr_def)

lemma addrs_ok_update_slot:
  assumes "addrs_ok h" "i < length (array h)"
    and "map fst (chain n') = map fst (chain (array h ! i)) @ (if b then [fresh_addr h] else [])"
  shows "addrs_ok (h\<lparr>count := c', array := (array h)[i := n']\<rparr>)"
proof -
  from assms(1) have d: "distinct (live_addrs (array h))" "0 \<notin> set (live_addrs (array h))"
    by (simp_all add: addrs_ok_def)
  note f = fresh_addr_fresh[of h]
  show ?thesis
    using d f assms(3)
    unfolding addrs_ok_def
    by (subst (asm) (1 2 3) live_addrs_nth[OF assms(2)])
       (auto simp: live_addrs_update[OF assms(2)])
qed

lemma put_slot_valid:
  assumes val: "valid h" and k: "k \<noteq> 0" and v: "v \<noteq> 0"
    and room: "lookup h k \<noteq> None \<or> count h < 32767"
  shows "\<exists>h'. put_slot h k v = Inr (case lookup h k of None \<Rightarrow> 0 | Some x \<Rightarrow> x, h') \<and>
           valid h' \<and> lookup h' = (lookup h)(k \<mapsto> v) \<and>
           count h' = (if lookup h k = None then count h + 1 else count h) \<and>
           arraySize h' = arraySize h \<and> hash h' = hash h \<and> compare h' = compare h \<and>
           (addrs_ok h \<longrightarrow> addrs_ok h')"
proof -
  define i where "i = hash h k mod arraySize h"
  let ?n = "array h ! i"
  have i: "i < length (array h)" "i < arraySize h"
    using val by (simp_all add: valid_def i_def)
  have wf: "wf_slot (hash h) (arraySize h) i ?n" using val i by (simp add: valid_def)
  have lk: "lookup h k = map_of (map kv (slot_entries ?n)) k" by (simp add: lookup_def i_def)
  from put_slot_char[OF val k v room, folded i_def]
  obtain n' c' where
    r: "put_slot h k v = Inr (case lookup h k of None \<Rightarrow> 0 | Some x \<Rightarrow> x, h\<lparr>count := c', array := (array h)[i := n']\<rparr>)"
    and c': "c' = (if lookup h k = None then count h + 1 else count h)"
    and se: "slot_entries n' = upd_entries k v (slot_entries ?n)"
    and kn: "key (ety n') \<noteq> 0"
    and ad: "map fst (chain n') = map fst (chain ?n) @
             (if key (ety ?n) \<noteq> 0 \<and> lookup h k = None then [fresh_addr h] else [])"
    by blast
  let ?h' = "h\<lparr>count := c', array := (array h)[i := n']\<rparr>"
  have mem: "lookup h k = None \<longleftrightarrow> k \<notin> key ` set (slot_entries ?n)"
    by (simp add: lk map_of_kv_None)
  have wf': "wf_slot (hash h) (arraySize h) i n'"
    using wf kn k v
    unfolding wf_slot_def se
    by (auto simp: keys_upd_entries i_def dest!: vals_upd_entries)
  have len: "c' = count h - int (length (slot_entries ?n)) + int (length (slot_entries n'))"
    by (simp add: c' se length_upd_entries mem)
  have "c' < 32768" using room val by (auto simp: c' valid_def)
  from valid_update_slot[OF val i(2) wf' len this] have v': "valid ?h'" .
  have l': "lookup ?h' = (lookup h)(k \<mapsto> v)"
  proof
    fix k'
    show "lookup ?h' k' = ((lookup h)(k \<mapsto> v)) k'"
    proof (cases "hash h k' mod arraySize h = i")
      case True
      then have "lookup h k' = map_of (map kv (slot_entries ?n)) k'" by (simp add: lookup_def)
      with True show ?thesis
        by (simp add: lookup_update_slot[OF i(1)] se map_of_upd_entries)
    next
      case False
      then have "k' \<noteq> k" by (auto simp: i_def)
      with False show ?thesis by (simp add: lookup_update_slot[OF i(1)])
    qed
  qed
  have a': "addrs_ok h \<longrightarrow> addrs_ok ?h'"
    using addrs_ok_update_slot[OF _ i(1) ad] by blast
  show ?thesis
    using r v' l' c' a' by (intro exI[of _ ?h']) simp
qed

subsection \<open>Keys of a valid map\<close>

lemma distinct_keys_slots:
  "(\<forall>j < length arr. wf_slot hf N j (arr ! j)) \<Longrightarrow> distinct (map key (entries arr))"
proof (induction arr rule: rev_induct)
  case Nil
  then show ?case by (simp add: entries_def)
next
  case (snoc x xs)
  have ih: "distinct (map key (entries xs))"
  proof (rule snoc.IH, intro allI impI)
    fix j assume "j < length xs"
    with snoc.prems[rule_format, of j] show "wf_slot hf N j (xs ! j)" by (simp add: nth_append)
  qed
  have x: "wf_slot hf N (length xs) x" using snoc.prems[rule_format, of "length xs"] by simp
  have disj: "key e \<noteq> key e'" if "e \<in> set (entries xs)" "e' \<in> set (slot_entries x)" for e e'
  proof -
    from that(1) obtain j where j: "j < length xs" "e \<in> set (slot_entries (xs ! j))"
      by (auto simp: entries_mem)
    with snoc.prems[rule_format, of j] have "hf (key e) mod N = j"
      by (auto simp: wf_slot_def nth_append)
    moreover from x that(2) have "hf (key e') mod N = length xs" by (auto simp: wf_slot_def)
    ultimately show ?thesis using j(1) by auto
  qed
  have "entries (xs @ [x]) = entries xs @ slot_entries x" by (simp add: entries_def)
  with ih x disj show ?case by (auto simp: wf_slot_def)
qed

lemma valid_distinct_keys: "valid h \<Longrightarrow> distinct (map key (entries (array h)))"
  by (rule distinct_keys_slots[of _ "hash h" "arraySize h"]) (simp add: valid_def)

lemma valid_entry_slot:
  assumes "valid h"
  shows "e \<in> set (entries (array h)) \<longleftrightarrow>
         e \<in> set (slot_entries (array h ! (hash h (key e) mod arraySize h)))"
proof
  assume "e \<in> set (entries (array h))"
  then obtain j where j: "j < length (array h)" "e \<in> set (slot_entries (array h ! j))"
    by (auto simp: entries_mem)
  with assms have "hash h (key e) mod arraySize h = j"
    by (auto simp: valid_def wf_slot_def)
  with j show "e \<in> set (slot_entries (array h ! (hash h (key e) mod arraySize h)))" by simp
next
  assume "e \<in> set (slot_entries (array h ! (hash h (key e) mod arraySize h)))"
  then show "e \<in> set (entries (array h))"
    using valid_probe[OF assms] by (auto simp: entries_mem)
qed

lemma fst_kv [simp]: "fst (kv e) = key e" and snd_kv [simp]: "snd (kv e) = val e"
  by (simp_all add: kv_def)

lemma fst_comp_kv [simp]: "fst \<circ> kv = key"
  by (simp add: fun_eq_iff)

lemma kv_in_set: "(k, v) \<in> kv ` set es \<longleftrightarrow> \<lparr>key = k, val = v\<rparr> \<in> set es"
  by (induction es) (auto simp: kv_def)

lemma map_fst_kv: "map fst (map kv es) = map key es"
  by (simp add: kv_def)

lemma valid_lookup_entries:
  assumes "valid h"
  shows "lookup h = map_of (map kv (entries (array h)))"
proof
  fix k
  let ?s = "slot_entries (array h ! (hash h k mod arraySize h))"
  have ds: "distinct (map fst (map kv ?s))"
    using valid_slot[OF assms, of "hash h k mod arraySize h"] assms
    by (simp add: wf_slot_def valid_def)
  have dg: "distinct (map fst (map kv (entries (array h))))"
    using valid_distinct_keys[OF assms] by simp
  have "lookup h k = Some v \<longleftrightarrow> map_of (map kv (entries (array h))) k = Some v" for v
    using valid_entry_slot[OF assms, of "\<lparr>key = k, val = v\<rparr>"]
    by (simp add: lookup_def map_of_eq_Some_iff[OF ds] map_of_eq_Some_iff[OF dg] kv_in_set)
  then have eq: "\<And>v. lookup h k = Some v \<longleftrightarrow> map_of (map kv (entries (array h))) k = Some v" .
  show "lookup h k = map_of (map kv (entries (array h))) k"
  proof (cases "lookup h k")
    case None
    with eq show ?thesis by (cases "map_of (map kv (entries (array h))) k") auto
  next
    case (Some a)
    with eq[of a] show ?thesis by simp
  qed
qed

lemma valid_dom_lookup: "valid h \<Longrightarrow> dom (lookup h) = key ` set (entries (array h))"
  by (simp add: valid_lookup_entries dom_map_of_conv_image_fst image_image)

lemma valid_count_card: "valid h \<Longrightarrow> count h = int (card (dom (lookup h)))"
  using valid_distinct_keys[of h] distinct_card[of "map key (entries (array h))"]
  by (simp add: valid_dom_lookup valid_def)

lemma room_from_card:
  assumes "valid h" "k \<in> K" "finite K" "card (dom (lookup h) \<union> K) < 32768"
  shows "lookup h k \<noteq> None \<or> count h < 32767"
proof (cases "lookup h k")
  case None
  then have "k \<notin> dom (lookup h)" by auto
  then have "dom (lookup h) \<subset> dom (lookup h) \<union> K" using assms(2) by auto
  moreover have "finite (dom (lookup h) \<union> K)" using assms(1,3) by (simp add: valid_dom_lookup)
  ultimately have "card (dom (lookup h)) < card (dom (lookup h) \<union> K)" by (rule psubset_card_mono[rotated])
  with assms(4) valid_count_card[OF assms(1)] show ?thesis by simp
qed simp

lemma upd_all_simps [simp]:
  "upd_all [] m = m"
  "upd_all (e # es) m = upd_all es (m(key e \<mapsto> val e))"
  "upd_all (es @ es') m = upd_all es' (upd_all es m)"
  by (simp_all add: upd_all_def)

lemma dom_upd_all: "dom (upd_all es m) = dom m \<union> key ` set es"
  by (induction es arbitrary: m) auto

lemma upd_all_distinct:
  "distinct (map key es) \<Longrightarrow> upd_all es m = m ++ map_of (map kv es)"
proof (induction es arbitrary: m)
  case Nil
  then show ?case by simp
next
  case (Cons e es)
  then have none: "map_of (map kv es) (key e) = None"
    by (simp add: map_of_kv_None)
  have "upd_all (e # es) m = m(key e \<mapsto> val e) ++ map_of (map kv es)"
    using Cons by simp
  also have "\<dots> = m ++ map_of (map kv (e # es))"
  proof (rule ext)
    fix x
    show "(m(key e \<mapsto> val e) ++ map_of (map kv es)) x = (m ++ map_of (map kv (e # es))) x"
      using none by (cases "x = key e") (simp_all add: map_add_def kv_def split: option.splits)
  qed
  finally show ?case .
qed

lemma post_trans: "post h h1 m1 \<Longrightarrow> post h1 h2 m2 \<Longrightarrow> post h h2 m2"
  by (simp add: post_def)

lemma post_count: "valid h \<Longrightarrow> post h h' (lookup h) \<Longrightarrow> count h' = count h"
  by (simp add: post_def valid_count_card)

lemma card_le_total:
  assumes "valid h" "finite K" "dom (lookup h) \<subseteq> D \<union> K" "finite D"
  shows "count h \<le> int (card (D \<union> K))"
  using assms card_mono[of "D \<union> K" "dom (lookup h)"] valid_count_card[OF assms(1)] by simp

lemma pend_step:
  "ii < n \<Longrightarrow> n \<le> length old \<Longrightarrow>
   entries (drop ii (take n old)) = slot_entries (old ! ii) @ entries (drop (Suc ii) (take n old))"
  by (simp add: entries_def flip: Cons_nth_drop_Suc)

lemma valid_alloc:
  assumes "valid h" "0 < f"
  defines "h0 \<equiv> h\<lparr>arraySize := arraySize h * f, array := allocnodes (arraySize h * f), count := 0\<rparr>"
  shows "valid h0" "addrs_ok h0" "lookup h0 = Map.empty"
proof -
  have sl: "slot_entries null_node = []" by (simp add: slot_entries_def null_node_def null_entry_def)
  have en: "entries (allocnodes m) = []" for m
    by (induction m) (simp_all add: entries_def allocnodes_def sl)
  have nn: "key (ety null_node) = 0" "chain null_node = []"
    by (simp_all add: null_node_def null_entry_def)
  have en': "entries (replicate m null_node) = []" for m
    using en[of m] by (simp add: allocnodes_def)
  show "valid h0" using assms(1,2)
    by (auto simp: valid_def h0_def en' allocnodes_def wf_slot_def sl nn)
  show "addrs_ok h0"
    by (simp add: addrs_ok_def h0_def live_addrs_def allocnodes_def null_node_def)
  show "lookup h0 = Map.empty"
    using assms(1,2) by (auto simp: lookup_def h0_def allocnodes_def sl valid_def)
qed

lemma grow_correct:
  "valid h \<and> addrs_ok h \<and> k \<noteq> 0 \<and> v \<noteq> 0 \<and> (lookup h k \<noteq> None \<or> count h < 32767) \<longrightarrow>
     (\<exists>h'. hashmap_put h k v = Inr (case lookup h k of None \<Rightarrow> 0 | Some x \<Rightarrow> x, h') \<and>
        post h h' ((lookup h)(k \<mapsto> v)) \<and>
        (count h < int (arraySize h) \<longrightarrow>
           arraySize h' = (if 2 * count h < int (arraySize h) then arraySize h else 2 * arraySize h)))"
  "valid h1 \<and> addrs_ok h1 \<longrightarrow>
     (\<exists>h'. ensurecapacity h1 = Inr h' \<and> post h1 h' (lookup h1) \<and>
        (count h1 < int (arraySize h1) \<longrightarrow>
           arraySize h' = (if 2 * count h1 < int (arraySize h1) then arraySize h1 else 2 * arraySize h1)))"
  "valid h2 \<and> addrs_ok h2 \<and> 0 < f \<and> arraySize h2 * f < 4294967296 \<longrightarrow>
     (\<exists>h'. hashmap_increase_capacity h2 f = Inr h' \<and> post h2 h' (lookup h2) \<and>
        (2 * count h2 < int (arraySize h2 * f) \<longrightarrow> arraySize h' = arraySize h2 * f))"
  "valid h3 \<and> addrs_ok h3 \<and> n \<le> length old \<and>
     (\<forall>e \<in> set (entries (drop ii (take n old))). key e \<noteq> 0 \<and> val e \<noteq> 0) \<and>
     card (dom (lookup h3) \<union> key ` set (entries (drop ii (take n old)))) < 32768 \<longrightarrow>
     (\<exists>h'. rehash_array h3 old n ii = Inr h' \<and>
        post h3 h' (upd_all (entries (drop ii (take n old))) (lookup h3)) \<and>
        (2 * int (card (dom (lookup h3) \<union> key ` set (entries (drop ii (take n old))))) < int (arraySize h3)
           \<longrightarrow> arraySize h' = arraySize h3))"
  "valid h4 \<and> addrs_ok h4 \<and> (\<forall>nd \<in> set ns. key (snd nd) \<noteq> 0 \<and> val (snd nd) \<noteq> 0) \<and>
     card (dom (lookup h4) \<union> key ` set (map snd ns)) < 32768 \<longrightarrow>
     (\<exists>h'. rehash_chain h4 ns = Inr h' \<and>
        post h4 h' (upd_all (map snd ns) (lookup h4)) \<and>
        (2 * int (card (dom (lookup h4) \<union> key ` set (map snd ns))) < int (arraySize h4)
           \<longrightarrow> arraySize h' = arraySize h4))"
proof (induct h k v and h1 and h2 f and h3 old n ii and h4 ns
       rule: hashmap_put_ensurecapacity_hashmap_increase_capacity_rehash_array_rehash_chain.induct)
  case (1 h k val_new)
  show ?case
  proof (intro impI, elim conjE)
    assume val: "valid h" and ad: "addrs_ok h" and k: "k \<noteq> 0" and v: "val_new \<noteq> 0"
      and room: "lookup h k \<noteq> None \<or> count h < 32767"
    from 1 k v val ad obtain h1 where
      e: "ensurecapacity h = Inr h1" and p1: "post h h1 (lookup h)"
      and s1: "count h < int (arraySize h) \<longrightarrow>
           arraySize h1 = (if 2 * count h < int (arraySize h) then arraySize h else 2 * arraySize h)"
      by blast
    have c1: "count h1 = count h" using post_count[OF val p1] .
    have v1: "valid h1" and a1: "addrs_ok h1" and l1: "lookup h1 = lookup h"
      using p1 by (simp_all add: post_def)
    from put_slot_valid[OF v1 k v] room l1 c1 obtain h' where
      ps: "put_slot h1 k val_new = Inr (case lookup h k of None \<Rightarrow> 0 | Some x \<Rightarrow> x, h')"
      and v': "valid h'" and l': "lookup h' = (lookup h)(k \<mapsto> val_new)"
      and sz: "arraySize h' = arraySize h1" and fn: "hash h' = hash h1" "compare h' = compare h1"
      and a': "addrs_ok h'" using a1 by auto
    have "hashmap_put h k val_new = Inr (case lookup h k of None \<Rightarrow> 0 | Some x \<Rightarrow> x, h')"
      using k v e ps by (simp add: hashmap_put.simps)
    moreover have "post h h' ((lookup h)(k \<mapsto> val_new))"
      using v' a' l' fn p1 by (simp add: post_def)
    moreover have "count h < int (arraySize h) \<longrightarrow>
           arraySize h' = (if 2 * count h < int (arraySize h) then arraySize h else 2 * arraySize h)"
      using s1 sz by auto
    ultimately show "\<exists>h'. hashmap_put h k val_new = Inr (case lookup h k of None \<Rightarrow> 0 | Some x \<Rightarrow> x, h') \<and>
        post h h' ((lookup h)(k \<mapsto> val_new)) \<and>
        (count h < int (arraySize h) \<longrightarrow>
           arraySize h' = (if 2 * count h < int (arraySize h) then arraySize h else 2 * arraySize h))" by blast
  qed
next
  case (2 h)
  show ?case
  proof (cases "2 * count h < int (arraySize h)")
    case True
    then show ?thesis by (auto simp: ensurecapacity.simps post_def)
  next
    case False
    show ?thesis
    proof (intro impI, elim conjE)
      assume val: "valid h" and ad: "addrs_ok h"
      have ov: "arraySize h * 2 < 4294967296" using val False by (auto simp: valid_def)
      from 2[OF False] val ad ov obtain h' where
        "hashmap_increase_capacity h 2 = Inr h'" "post h h' (lookup h)"
        "2 * count h < int (arraySize h * 2) \<longrightarrow> arraySize h' = arraySize h * 2"
        by auto
      then show "\<exists>h'. ensurecapacity h = Inr h' \<and> post h h' (lookup h) \<and>
        (count h < int (arraySize h) \<longrightarrow>
           arraySize h' = (if 2 * count h < int (arraySize h) then arraySize h else 2 * arraySize h))"
        using False by (auto simp: ensurecapacity.simps)
    qed
  qed
next
  case (3 h factor)
  show ?case
  proof (intro impI, elim conjE)
    assume val: "valid h" and ad: "addrs_ok h" and f: "0 < factor"
      and ov: "arraySize h * factor < 4294967296"
    have mu: "mul_uint (arraySize h) factor = arraySize h * factor"
      using ov by (simp add: mul_uint_def)
    let ?h0 = "h\<lparr>arraySize := arraySize h * factor, array := allocnodes (arraySize h * factor), count := 0\<rparr>"
    note h0 = valid_alloc[OF val f]
    have len: "arraySize h \<le> length (array h)" "take (arraySize h) (array h) = array h"
      using val by (simp_all add: valid_def)
    have nz: "\<forall>e \<in> set (entries (array h)). key e \<noteq> 0 \<and> val e \<noteq> 0"
      using val by (auto simp: entries_mem valid_def wf_slot_def)
    have "card (key ` set (entries (array h))) \<le> length (entries (array h))"
      by (metis card_image_le card_length le_trans List.finite_set)
    then have cd: "int (card (key ` set (entries (array h)))) \<le> count h" "count h < 32768"
      using val by (simp_all add: valid_def)
    have cc: "int (card (key ` set (entries (array h)))) = count h"
      using valid_count_card[OF val] by (simp add: valid_dom_lookup[OF val])
    from 3[unfolded mu] h0 len nz cd obtain h' where
      r: "rehash_array ?h0 (array h) (arraySize h) 0 = Inr h'"
      and p: "post ?h0 h' (upd_all (entries (array h)) Map.empty)"
      and s: "2 * int (card (key ` set (entries (array h)))) < int (arraySize ?h0) \<longrightarrow>
              arraySize h' = arraySize ?h0"
      by auto
    have "upd_all (entries (array h)) Map.empty = lookup h"
      by (simp add: upd_all_distinct[OF valid_distinct_keys[OF val]] valid_lookup_entries[OF val])
    with p have "post h h' (lookup h)" by (simp add: post_def)
    then show "\<exists>h'. hashmap_increase_capacity h factor = Inr h' \<and> post h h' (lookup h) \<and>
        (2 * count h < int (arraySize h * factor) \<longrightarrow> arraySize h' = arraySize h * factor)"
      using r s cc by (auto simp: hashmap_increase_capacity.simps mu)
  qed
next
  case (4 h array_old asize_old ii)
  let ?P = "entries (drop ii (take asize_old array_old))"
  let ?P' = "entries (drop (Suc ii) (take asize_old array_old))"
  show ?case
  proof (intro impI, elim conjE)
    assume val: "valid h" and ad: "addrs_ok h" and le: "asize_old \<le> length array_old"
      and nz: "\<forall>e \<in> set ?P. key e \<noteq> 0 \<and> val e \<noteq> 0"
      and cd: "card (dom (lookup h) \<union> key ` set ?P) < 32768"
    show "\<exists>h'. rehash_array h array_old asize_old ii = Inr h' \<and> post h h' (upd_all ?P (lookup h)) \<and>
        (2 * int (card (dom (lookup h) \<union> key ` set ?P)) < int (arraySize h) \<longrightarrow> arraySize h' = arraySize h)"
    proof (cases "ii < asize_old")
      case False
      then have "?P = []" by (simp add: entries_def)
      with False val ad show ?thesis by (simp add: rehash_array.simps post_def)
    next
      case lt: True
      then have inb: "\<not> length array_old \<le> ii" using le by simp
      let ?x = "array_old ! ii"
      have st: "?P = slot_entries ?x @ ?P'" using pend_step[OF lt le] .
      show ?thesis
      proof (cases "key (ety ?x) = 0")
        case True
        then have eq: "?P = ?P'" by (simp add: st slot_entries_def)
        from 4(1)[OF lt inb refl True] val ad le nz cd obtain h' where
          "rehash_array h array_old asize_old (ii + 1) = Inr h'" "post h h' (upd_all ?P' (lookup h))"
          "2 * int (card (dom (lookup h) \<union> key ` set ?P')) < int (arraySize h) \<longrightarrow> arraySize h' = arraySize h"
          unfolding eq by auto
        then show ?thesis using lt inb True
          by (auto simp: rehash_array.simps[of h array_old asize_old ii] eq)
      next
        case False
        let ?k = "key (ety ?x)" and ?v = "val (ety ?x)"
        let ?T = "dom (lookup h) \<union> key ` set ?P"
        have se: "slot_entries ?x = ety ?x # map snd (chain ?x)" using False by (simp add: slot_entries_def)
        have finT: "finite ?T" using val by (simp add: valid_dom_lookup)
        have kv0: "?k \<noteq> 0" "?v \<noteq> 0" using nz by (simp_all add: st se)
        have room: "lookup h ?k \<noteq> None \<or> count h < 32767"
          by (rule room_from_card[OF val _ _ cd]) (simp_all add: st se)
        from 4(2)[OF lt inb refl False] val ad kv0 room obtain h1 where
          p: "hashmap_put h ?k ?v = Inr (case lookup h ?k of None \<Rightarrow> 0 | Some x \<Rightarrow> x, h1)"
          and p1: "post h h1 ((lookup h)(?k \<mapsto> ?v))"
          and s1': "count h < int (arraySize h) \<longrightarrow>
             arraySize h1 = (if 2 * count h < int (arraySize h) then arraySize h else 2 * arraySize h)"
          by blast
        have s1: "2 * count h < int (arraySize h) \<longrightarrow> arraySize h1 = arraySize h"
          using s1' val by (auto simp: valid_def)
        have v1: "valid h1" and a1: "addrs_ok h1" and l1: "lookup h1 = (lookup h)(?k \<mapsto> ?v)"
          using p1 by (simp_all add: post_def)
        let ?T1 = "dom (lookup h1) \<union> key ` set (map snd (chain ?x))"
        have sub1: "?T1 \<subseteq> ?T" by (auto simp: l1 st se)
        have cd1: "card ?T1 \<le> card ?T" by (rule card_mono[OF finT sub1])
        have nz1: "\<forall>nd \<in> set (chain ?x). key (snd nd) \<noteq> 0 \<and> val (snd nd) \<noteq> 0"
          using nz by (auto simp: st se)
        from 4(3)[OF lt inb refl False p refl] v1 a1 nz1 cd1 cd obtain h2 where
          c: "rehash_chain h1 (chain ?x) = Inr h2"
          and p2: "post h1 h2 (upd_all (map snd (chain ?x)) (lookup h1))"
          and s2: "2 * int (card ?T1) < int (arraySize h1) \<longrightarrow> arraySize h2 = arraySize h1"
          by auto
        have v2: "valid h2" and a2: "addrs_ok h2"
          and l2: "lookup h2 = upd_all (map snd (chain ?x)) (lookup h1)"
          using p2 by (simp_all add: post_def)
        let ?T2 = "dom (lookup h2) \<union> key ` set ?P'"
        have sub2: "?T2 \<subseteq> ?T" by (auto simp: l2 l1 st se dom_upd_all)
        have cd2: "card ?T2 \<le> card ?T" by (rule card_mono[OF finT sub2])
        have nz2: "\<forall>e \<in> set ?P'. key e \<noteq> 0 \<and> val e \<noteq> 0" using nz by (auto simp: st)
        from 4(4)[OF lt inb refl False p refl c] v2 a2 le nz2 cd2 cd obtain h' where
          r: "rehash_array h2 array_old asize_old (ii + 1) = Inr h'"
          and p3: "post h2 h' (upd_all ?P' (lookup h2))"
          and s3: "2 * int (card ?T2) < int (arraySize h2) \<longrightarrow> arraySize h' = arraySize h2"
          by auto
        have res: "rehash_array h array_old asize_old ii = Inr h'"
          using lt inb False p c r by (simp add: rehash_array.simps[of h array_old asize_old ii])
        have lk: "upd_all ?P' (lookup h2) = upd_all ?P (lookup h)"
          by (simp add: l2 l1 st se)
        have po: "post h h' (upd_all ?P (lookup h))"
          using post_trans[OF post_trans[OF p1 p2] p3] lk by simp
        have cT: "count h \<le> int (card ?T)"
          by (rule card_le_total[OF val _ _ _]) (use val in \<open>auto simp: valid_dom_lookup\<close>)
        have sz: "2 * int (card ?T) < int (arraySize h) \<longrightarrow> arraySize h' = arraySize h"
          using s1 s2 s3 cd1 cd2 cT by auto
        from res po sz show ?thesis by blast
      qed
    qed
  qed
next
  case (5 h)
  then show ?case by (simp add: post_def)
next
  case (6 h node ns)
  let ?k = "key (snd node)" and ?v = "val (snd node)"
  let ?T = "dom (lookup h) \<union> key ` set (map snd (node # ns))"
  show ?case
  proof (intro impI, elim conjE)
    assume val: "valid h" and ad: "addrs_ok h"
      and nz: "\<forall>nd \<in> set (node # ns). key (snd nd) \<noteq> 0 \<and> val (snd nd) \<noteq> 0"
      and cd: "card ?T < 32768"
    have finT: "finite ?T" using val by (simp add: valid_dom_lookup)
    have kv0: "?k \<noteq> 0" "?v \<noteq> 0" using nz by simp_all
    have room: "lookup h ?k \<noteq> None \<or> count h < 32767"
      by (rule room_from_card[OF val _ _ cd]) simp_all
    from 6(1) val ad kv0 room obtain h1 where
      p: "hashmap_put h ?k ?v = Inr (case lookup h ?k of None \<Rightarrow> 0 | Some x \<Rightarrow> x, h1)"
      and p1: "post h h1 ((lookup h)(?k \<mapsto> ?v))"
      and s1': "count h < int (arraySize h) \<longrightarrow>
         arraySize h1 = (if 2 * count h < int (arraySize h) then arraySize h else 2 * arraySize h)"
      by blast
    have s1: "2 * count h < int (arraySize h) \<longrightarrow> arraySize h1 = arraySize h"
      using s1' val by (auto simp: valid_def)
    have v1: "valid h1" and a1: "addrs_ok h1" and l1: "lookup h1 = (lookup h)(?k \<mapsto> ?v)"
      using p1 by (simp_all add: post_def)
    let ?T1 = "dom (lookup h1) \<union> key ` set (map snd ns)"
    have sub1: "?T1 \<subseteq> ?T" by (auto simp: l1)
    have cd1: "card ?T1 \<le> card ?T" by (rule card_mono[OF finT sub1])
    from 6(2)[OF p refl kv0(1)] v1 a1 nz cd1 cd obtain h' where
      c: "rehash_chain h1 ns = Inr h'"
      and p2: "post h1 h' (upd_all (map snd ns) (lookup h1))"
      and s2: "2 * int (card ?T1) < int (arraySize h1) \<longrightarrow> arraySize h' = arraySize h1"
      by auto
    have res: "rehash_chain h (node # ns) = Inr h'" using p c kv0 by simp
    have po: "post h h' (upd_all (map snd (node # ns)) (lookup h))"
      using post_trans[OF p1 p2] by (simp add: l1)
    have cT: "count h \<le> int (card ?T)"
      by (rule card_le_total[OF val _ _ _]) (use val in \<open>auto simp: valid_dom_lookup\<close>)
    have sz: "2 * int (card ?T) < int (arraySize h) \<longrightarrow> arraySize h' = arraySize h"
      using s1 s2 cd1 cT by auto
    from res po sz show "\<exists>h'. rehash_chain h (node # ns) = Inr h' \<and>
        post h h' (upd_all (map snd (node # ns)) (lookup h)) \<and>
        (2 * int (card ?T) < int (arraySize h) \<longrightarrow> arraySize h' = arraySize h)" by blast
  qed
qed

subsection \<open>Put, get and growth\<close>


lemma cmp_eq_iff: "cmp_eq a b = 0 \<longleftrightarrow> a = b"
  by (simp add: cmp_eq_def)

lemma wellformed_new:
  assumes "0 < n" "\<forall>a b. cmp a b = 0 \<longleftrightarrow> a = b"
  shows "wellformed (hashmap_new hf cmp n)"
proof -
  have nn: "key (ety null_node) = 0" "chain null_node = []" "slot_entries null_node = []"
    by (simp_all add: null_node_def null_entry_def slot_entries_def)
  have en: "entries (replicate m null_node) = []" for m
    by (induction m) (simp_all add: entries_def nn)
  show ?thesis using assms
    by (auto simp: wellformed_def valid_def addrs_ok_def hashmap_new_def allocnodes_def en
        wf_slot_def nn live_addrs_def)
qed

lemma lookup_new: "0 < n \<Longrightarrow> lookup (hashmap_new hf cmp n) k = None"
  by (simp add: lookup_def hashmap_new_def allocnodes_def null_node_def null_entry_def slot_entries_def)

lemma hashmap_put_wellformed:
  assumes "wellformed h" "k \<noteq> 0" "v \<noteq> 0" "lookup h k \<noteq> None \<or> count h < 32767"
  shows "\<exists>h'. hashmap_put h k v = Inr (case lookup h k of None \<Rightarrow> 0 | Some x \<Rightarrow> x, h') \<and>
           wellformed h' \<and> lookup h' = (lookup h)(k \<mapsto> v) \<and>
           hash h' = hash h \<and> compare h' = compare h \<and>
           count h' = (if lookup h k = None then count h + 1 else count h) \<and>
           (count h < int (arraySize h) \<longrightarrow>
              arraySize h' = (if 2 * count h < int (arraySize h) then arraySize h else 2 * arraySize h))"
proof -
  from grow_correct(1)[of h k v] assms obtain h' where
    p: "hashmap_put h k v = Inr (case lookup h k of None \<Rightarrow> 0 | Some x \<Rightarrow> x, h')"
    and po: "post h h' ((lookup h)(k \<mapsto> v))"
    and sz: "count h < int (arraySize h) \<longrightarrow>
        arraySize h' = (if 2 * count h < int (arraySize h) then arraySize h else 2 * arraySize h)"
    by (auto simp: wellformed_def)
  have v: "valid h" using assms(1) by (simp add: wellformed_def)
  have v': "valid h'" and l': "lookup h' = (lookup h)(k \<mapsto> v)" using po by (simp_all add: post_def)
  have fin: "finite (dom (lookup h))" using v by (simp add: valid_dom_lookup)
  have "count h' = (if lookup h k = None then count h + 1 else count h)"
    using valid_count_card[OF v] valid_count_card[OF v'] fin
    by (auto simp: l' insert_absorb domIff)
  with p po sz show ?thesis by (auto simp: post_def wellformed_def)
qed

text \<open>
  Claim C6. On every well-formed map, for every key and value other than \<open>NULL\<close>,
  \<open>hashmap_put\<close> returns and \<open>hashmap_get\<close> of the key on the map it leaves returns
  that value. (A map that already holds 32767 entries takes no new key: \<open>__nodeassign\<close>
  asserts \<open>count < 32768\<close>.)
\<close>

theorem put_then_get:
  assumes "wellformed h" and "k \<noteq> 0" and "v \<noteq> 0"
    and "lookup h k \<noteq> None \<or> count h < 32767"
  shows "\<exists>r h'. hashmap_put h k v = Inr (r, h') \<and> hashmap_get h' k = Inr v"
proof -
  from hashmap_put_wellformed[OF assms] obtain h' where
    "hashmap_put h k v = Inr (case lookup h k of None \<Rightarrow> 0 | Some x \<Rightarrow> x, h')"
    "wellformed h'" "lookup h' = (lookup h)(k \<mapsto> v)" by blast
  then show ?thesis
    by (auto simp: hashmap_get_lookup wellformed_def)
qed

theorem put_then_get_witness:
  "wellformed (hashmap_new hash_id cmp_eq 4) \<and> (1::nat) \<noteq> 0 \<and> (10::nat) \<noteq> 0 \<and>
   count (hashmap_new hash_id cmp_eq 4) < 32767 \<and>
   (\<exists>r h'. hashmap_put (hashmap_new hash_id cmp_eq 4) 1 10 = Inr (r, h') \<and> hashmap_get h' 1 = Inr 10)"
proof -
  have w: "wellformed (hashmap_new hash_id cmp_eq 4)"
    by (rule wellformed_new) (simp_all add: cmp_eq_iff)
  have c: "lookup (hashmap_new hash_id cmp_eq 4) 1 \<noteq> None \<or> count (hashmap_new hash_id cmp_eq 4) < 32767"
    by (simp add: hashmap_new_def)
  have c': "count (hashmap_new hash_id cmp_eq 4) < 32767"
    by (simp add: hashmap_new_def)
  show ?thesis
    using w c' put_then_get[OF w _ _ c, of 10] by simp
qed

lemma entry_eta: "\<lparr>key = key e, val = val e\<rparr> = (e::hash_entry)"
  by (cases e) simp

lemma valid_entry_lookup:
  assumes "valid h"
  shows "e \<in> set (entries (array h)) \<longleftrightarrow> lookup h (key e) = Some (val e)"
proof -
  have d: "distinct (map fst (map kv (entries (array h))))"
    using valid_distinct_keys[OF assms] by simp
  have "lookup h (key e) = Some (val e) \<longleftrightarrow> (key e, val e) \<in> kv ` set (entries (array h))"
    by (simp add: valid_lookup_entries[OF assms] map_of_eq_Some_iff[OF d])
  also have "\<dots> \<longleftrightarrow> e \<in> set (entries (array h))"
    by (simp add: kv_in_set entry_eta)
  finally show ?thesis by simp
qed

lemma same_lookup_same_map:
  assumes "valid h" "valid h'" "lookup h' = lookup h"
  shows "count h' = count h" "set (entries (array h')) = set (entries (array h))"
    "hashmap_get h' k = hashmap_get h k"
proof -
  show "count h' = count h" using assms by (simp add: valid_count_card)
  show "set (entries (array h')) = set (entries (array h))"
    using assms by (auto simp: valid_entry_lookup)
  show "hashmap_get h' k = hashmap_get h k"
    using assms by (simp add: hashmap_get_lookup)
qed

lemma grow_to_no_slots:
  assumes "mul_uint 8 f = 0"
  shows "hashmap_increase_capacity example_map f = Inl DivisionByZero"
proof -
  let ?h0 = "\<lparr>count = 0, arraySize = 0, array = [], hash = hash_id, compare = cmp_eq\<rparr>"
  have e: "ensurecapacity ?h0 = Inr ?h0"
    by (simp add: ensurecapacity.simps hashmap_increase_capacity.simps mul_uint_def
        allocnodes_def rehash_array.simps)
  have p: "hashmap_put ?h0 (Suc 0) 10 = Inl DivisionByZero"
    using e by (simp add: hashmap_put.simps put_slot_def doProbe_def)
  have "hashmap_increase_capacity example_map f = rehash_array ?h0 (array example_map) 8 0"
    by (simp add: hashmap_increase_capacity.simps example_map_def assms allocnodes_def)
  also have "\<dots> = rehash_array ?h0 (array example_map) 8 1"
    by (subst rehash_array.simps) (simp add: example_map_def null_node_def null_entry_def Let_def)
  also have "\<dots> = Inl DivisionByZero"
    by (subst rehash_array.simps) (simp add: example_map_def p Let_def)
  finally show ?thesis .
qed

text \<open>
  Claim C5, as stated for every growth factor, fails. The map \<open>example_map\<close> has eight
  slots and three entries. Grown by the factor \<open>2 ^ 29\<close>, the product \<open>8 * 2 ^ 29\<close>
  wraps to an array size of zero, and grown by the factor zero the array size is zero as
  well: the new array has no slot, and the first entry that \<open>hashmap_increase_capacity\<close>
  puts back divides by the array size in \<open>__doProbe\<close>. No map comes back, so neither the
  count nor any entry is preserved.
\<close>

theorem grow_by_wrapping_factor_counterexample:
  "hashmap_count example_map = 3 \<and>
   hashmap_get example_map 9 = Inr 90 \<and>
   hashmap_size example_map = 8 \<and>
   mul_uint (arraySize example_map) 536870912 = 0 \<and>
   hashmap_increase_capacity example_map 536870912 = Inl DivisionByZero \<and>
   hashmap_increase_capacity example_map 0 = Inl DivisionByZero"
proof -
  have a: "mul_uint 8 536870912 = 0" "mul_uint 8 0 = 0" by (simp_all add: mul_uint_def)
  have b: "hashmap_size example_map = 8" "hashmap_count example_map = 3"
    "arraySize example_map = 8"
    by (simp_all add: hashmap_size_def hashmap_count_def example_map_def)
  have c: "hashmap_get example_map 9 = Inr 90" by code_simp
  show ?thesis using a b c grow_to_no_slots[OF a(1)] grow_to_no_slots[OF a(2)] by simp
qed

text \<open>
  Claim C5, amended. On a well-formed map, \<open>hashmap_increase_capacity\<close> with a factor of at
  least one whose product with the array size is below \<open>2 ^ 31\<close> (so that
  \<open>h->arraySize *= factor\<close> does not wrap), and the threshold test \<open>__ensurecapacity\<close> that
  \<open>hashmap_put\<close> runs (which grows by the factor two, and never wraps on a well-formed
  map), each return a well-formed map with the same count, the same entries (keys with
  their values), and the same answer of \<open>hashmap_get\<close> for every key.
\<close>

theorem grow_preserves_entries:
  assumes "wellformed h"
  shows "(0 < factor \<and> arraySize h * factor < 2147483648 \<longrightarrow>
          (\<exists>h'. hashmap_increase_capacity h factor = Inr h' \<and> wellformed h' \<and>
            hashmap_count h' = hashmap_count h \<and>
            set (entries (array h')) = set (entries (array h)) \<and>
            (\<forall>k. hashmap_get h' k = hashmap_get h k))) \<and>
         (\<exists>h'. ensurecapacity h = Inr h' \<and> wellformed h' \<and>
            hashmap_count h' = hashmap_count h \<and>
            set (entries (array h')) = set (entries (array h)) \<and>
            (\<forall>k. hashmap_get h' k = hashmap_get h k))"
proof -
  have v: "valid h" using assms(1) by (simp add: wellformed_def)
  have p: "post h h' (lookup h) \<Longrightarrow> wellformed h' \<and> hashmap_count h' = hashmap_count h \<and>
        set (entries (array h')) = set (entries (array h)) \<and> (\<forall>k. hashmap_get h' k = hashmap_get h k)" for h'
    using same_lookup_same_map[OF v, of h'] by (simp add: post_def wellformed_def hashmap_count_def)
  from grow_correct(2)[of h] assms obtain h2 where
    2: "ensurecapacity h = Inr h2" "post h h2 (lookup h)"
    by (auto simp: wellformed_def)
  have g: "\<exists>h'. hashmap_increase_capacity h factor = Inr h' \<and> wellformed h' \<and>
            hashmap_count h' = hashmap_count h \<and>
            set (entries (array h')) = set (entries (array h)) \<and>
            (\<forall>k. hashmap_get h' k = hashmap_get h k)"
    if f: "0 < factor" "arraySize h * factor < 2147483648"
  proof -
    from f have "arraySize h * factor < 4294967296" by simp
    with grow_correct(3)[of h factor] assms f(1) obtain h1 where
      1: "hashmap_increase_capacity h factor = Inr h1" "post h h1 (lookup h)"
      by (auto simp: wellformed_def)
    from 1 p[of h1] show ?thesis by blast
  qed
  from g 2 p[of h2] show ?thesis by blast
qed


lemma all_less_8:
  "(\<forall>i<(8::nat). P i) \<longleftrightarrow> P 0 \<and> P 1 \<and> P 2 \<and> P 3 \<and> P 4 \<and> P 5 \<and> P 6 \<and> P 7"
proof -
  have "{..<(8::nat)} = {0, 1, 2, 3, 4, 5, 6, 7}" by auto
  then have "(\<forall>i<(8::nat). P i) \<longleftrightarrow> (\<forall>i \<in> {0, 1, 2, 3, 4, 5, 6, 7}. P i)"
    by (metis lessThan_iff)
  then show ?thesis by simp
qed

lemma wellformed_example: "wellformed example_map"
  by (simp add: wellformed_def valid_def addrs_ok_def example_map_def entries_def slot_entries_def
      null_node_def null_entry_def wf_slot_def live_addrs_def cmp_eq_def hash_id_def
      all_less_8)

theorem grow_preserves_entries_witness:
  "wellformed example_map \<and> (0::nat) < 2 \<and> arraySize example_map * 2 < 2147483648 \<and>
   (\<exists>h'. hashmap_increase_capacity example_map 2 = Inr h' \<and> wellformed h' \<and>
            hashmap_count h' = hashmap_count example_map \<and>
            set (entries (array h')) = set (entries (array example_map)) \<and>
            (\<forall>k. hashmap_get h' k = hashmap_get example_map k)) \<and>
         (\<exists>h'. ensurecapacity example_map = Inr h' \<and> wellformed h' \<and>
            hashmap_count h' = hashmap_count example_map \<and>
            set (entries (array h')) = set (entries (array example_map)) \<and>
            (\<forall>k. hashmap_get h' k = hashmap_get example_map k))"
proof -
  have a: "arraySize example_map * 2 < 2147483648" by (simp add: example_map_def)
  show ?thesis
    using grow_preserves_entries[OF wellformed_example, of 2] wellformed_example a by simp
qed

lemma remove_chain_None:
  assumes "\<forall>a b. cmp a b = 0 \<longleftrightarrow> a = b"
  shows "remove_chain cmp k c = None \<longleftrightarrow> k \<notin> key ` set (map snd c)"
  using assms by (induction c) (auto split: option.splits)

lemma remove_chain_Some:
  assumes "\<forall>a b. cmp a b = 0 \<longleftrightarrow> a = b" "remove_chain cmp k c = Some (e, c')"
  shows "key e = k \<and> map_of (map kv (map snd c)) k = Some (val e) \<and>
         map snd c' = del_entries k (map snd c) \<and>
         set c' \<subseteq> set c \<and> (distinct (map fst c) \<longrightarrow> distinct (map fst c'))"
  using assms
proof (induction c arbitrary: e c')
  case Nil
  then show ?case by simp
next
  case (Cons n ns)
  show ?case
  proof (cases "cmp k (key (snd n)) = 0")
    case True
    with Cons.prems show ?thesis by (auto simp: kv_def)
  next
    case False
    with Cons.prems obtain c2 where r: "remove_chain cmp k ns = Some (e, c2)" and c': "c' = n # c2"
      by (auto split: option.splits)
    from Cons.IH[OF Cons.prems(1) r] False Cons.prems(1) c' show ?thesis
      by (auto simp: kv_def)
  qed
qed

lemma map_of_del_entries:
  "distinct (map key es) \<Longrightarrow> map_of (map kv (del_entries k es)) = (map_of (map kv es))(k := None)"
proof (induction es)
  case Nil
  then show ?case by simp
next
  case (Cons e es)
  then have "map_of (map kv es) (key e) = None" by (simp add: map_of_kv_None)
  with Cons show ?case by (auto simp: fun_eq_iff)
qed

lemma set_del_entries: "set (del_entries k es) \<subseteq> set es"
  by (induction es) auto

lemma distinct_del_entries: "distinct (map key es) \<Longrightarrow> distinct (map key (del_entries k es))"
proof (induction es)
  case Nil
  then show ?case by simp
next
  case (Cons e es)
  then show ?case using set_del_entries[of k es] by auto
qed

lemma length_del_entries:
  "k \<in> key ` set es \<Longrightarrow> Suc (length (del_entries k es)) = length es"
  by (induction es) auto

lemma addrs_ok_shrink_slot:
  assumes "addrs_ok h" "i < length (array h)"
    and "set (map fst (chain n')) \<subseteq> set (map fst (chain (array h ! i)))"
    and "distinct (map fst (chain n'))"
  shows "addrs_ok (h\<lparr>array := (array h)[i := n'], count := c'\<rparr>)"
proof -
  define A where "A = live_addrs (take i (array h))"
  define C where "C = live_addrs (drop (Suc i) (array h))"
  define B where "B = map fst (chain (array h ! i))"
  define B' where "B' = map fst (chain n')"
  have eq: "live_addrs (array h) = A @ B @ C"
    unfolding A_def B_def C_def by (rule live_addrs_nth[OF assms(2)])
  have eq': "live_addrs ((array h)[i := n']) = A @ B' @ C"
    unfolding A_def B'_def C_def by (rule live_addrs_update[OF assms(2)])
  from assms(1) have d: "distinct (A @ B @ C)" "0 \<notin> set (A @ B @ C)"
    by (simp_all add: addrs_ok_def eq)
  have s: "set B' \<subseteq> set B" "distinct B'" using assms(3,4) by (simp_all add: B_def B'_def)
  from d s have "distinct (A @ B' @ C)" "0 \<notin> set (A @ B' @ C)" by auto
  then show ?thesis by (simp add: addrs_ok_def eq')
qed

lemma hashmap_remove_entry_wellformed:
  assumes wf: "wellformed h"
  shows "(case lookup h k of
            None \<Rightarrow> hashmap_remove_entry h k = Inr (null_entry, h)
          | Some v \<Rightarrow> (\<exists>h'. hashmap_remove_entry h k = Inr (\<lparr>key = k, val = v\<rparr>, h') \<and>
               count h' = count h - 1 \<and> wellformed h' \<and> lookup h' = (lookup h)(k := None) \<and>
               arraySize h' = arraySize h \<and> hash h' = hash h \<and> compare h' = compare h))"
proof -
  define i where "i = hash h k mod arraySize h"
  let ?n = "array h ! i"
  have val: "valid h" and ad: "addrs_ok h" using wf by (simp_all add: wellformed_def)
  have i: "i < length (array h)" "i < arraySize h" and nz: "arraySize h \<noteq> 0"
    using val by (simp_all add: valid_def i_def)
  have cmp: "\<forall>a b. compare h a b = 0 \<longleftrightarrow> a = b" using val by (simp add: valid_def)
  have wfs: "wf_slot (hash h) (arraySize h) i ?n" using val i by (simp add: valid_def)
  have lk: "lookup h k = map_of (map kv (slot_entries ?n)) k" by (simp add: lookup_def i_def)
  have da: "distinct (map fst (chain ?n))"
    using ad live_addrs_nth[OF i(1)] by (simp add: addrs_ok_def)
  have unf: "hashmap_remove_entry h k =
      (if key (ety ?n) = 0 then Inr (null_entry, h)
       else if compare h k (key (ety ?n)) = 0 then
         (let n' = (case chain ?n of tmp # rest \<Rightarrow> \<lparr>ety = snd tmp, chain = rest\<rparr>
                    | [] \<Rightarrow> ?n\<lparr>ety := (ety ?n)\<lparr>key := 0\<rparr>\<rparr>)
          in Inr (ety ?n, h\<lparr>array := (array h)[i := n'], count := count h - 1\<rparr>))
       else (case remove_chain (compare h) k (chain ?n) of
               None \<Rightarrow> Inr (null_entry, h)
             | Some (e, c') \<Rightarrow> Inr (e, h\<lparr>array := (array h)[i := ?n\<lparr>chain := c'\<rparr>], count := count h - 1\<rparr>)))"
    using i nz unfolding i_def by (simp add: hashmap_remove_entry_def doProbe_def node_at_def)
  have fin: "\<exists>h'. hashmap_remove_entry h k = Inr (\<lparr>key = k, val = v\<rparr>, h') \<and>
               count h' = count h - 1 \<and> wellformed h' \<and> lookup h' = (lookup h)(k := None) \<and>
               arraySize h' = arraySize h \<and> hash h' = hash h \<and> compare h' = compare h"
    if r: "hashmap_remove_entry h k = Inr (\<lparr>key = k, val = v\<rparr>, h\<lparr>array := (array h)[i := n'], count := count h - 1\<rparr>)"
      and se: "slot_entries n' = del_entries k (slot_entries ?n)"
      and kin: "k \<in> key ` set (slot_entries ?n)"
      and emp: "key (ety n') = 0 \<longrightarrow> chain n' = []"
      and sub: "set (map fst (chain n')) \<subseteq> set (map fst (chain ?n))"
      and dis: "distinct (map fst (chain n'))"
    for n' v
  proof -
    let ?h' = "h\<lparr>array := (array h)[i := n'], count := count h - 1\<rparr>"
    have wf': "wf_slot (hash h) (arraySize h) i n'"
      using wfs emp set_del_entries[of k "slot_entries ?n"]
      unfolding wf_slot_def se by (auto intro: distinct_del_entries)
    have len: "count h - 1 = count h - int (length (slot_entries ?n)) + int (length (slot_entries n'))"
      using length_del_entries[OF kin] by (simp add: se)
    have "count h - 1 < 32768" using val by (simp add: valid_def)
    have sw: "?h' = h\<lparr>count := count h - 1, array := (array h)[i := n']\<rparr>"
      by (cases h) simp
    from valid_update_slot[OF val i(2) wf' len \<open>count h - 1 < 32768\<close>] have v': "valid ?h'"
      unfolding sw .
    have a': "addrs_ok ?h'" by (rule addrs_ok_shrink_slot[OF ad i(1) sub dis])
    have d: "distinct (map key (slot_entries ?n))" using wfs by (simp add: wf_slot_def)
    have l': "lookup ?h' = (lookup h)(k := None)"
    proof
      fix k'
      show "lookup ?h' k' = ((lookup h)(k := None)) k'"
      proof (cases "hash h k' mod arraySize h = i")
        case True
        then have "lookup h k' = map_of (map kv (slot_entries ?n)) k'" by (simp add: lookup_def)
        with True show ?thesis
          using lookup_update_slot[OF i(1), where c' = "count h - 1" and n' = n' and k' = k']
          by (simp add: se map_of_del_entries[OF d] sw)
      next
        case False
        then have "k' \<noteq> k" by (auto simp: i_def)
        with False show ?thesis
          using lookup_update_slot[OF i(1), where c' = "count h - 1" and n' = n' and k' = k'] by (simp add: sw)
      qed
    qed
    from r v' a' l' show ?thesis by (intro exI[of _ ?h']) (simp add: wellformed_def)
  qed
  show ?thesis
  proof (cases "key (ety ?n) = 0")
    case True
    then have "lookup h k = None" by (simp add: lk slot_entries_def)
    with True unf show ?thesis by simp
  next
    case root: False
    have se: "slot_entries ?n = ety ?n # map snd (chain ?n)" using root by (simp add: slot_entries_def)
    show ?thesis
    proof (cases "key (ety ?n) = k")
      case True
      then have some: "lookup h k = Some (val (ety ?n))" by (simp add: lk se kv_def)
      have ent: "ety ?n = \<lparr>key = k, val = val (ety ?n)\<rparr>" using True by (cases "ety ?n") simp
      let ?n' = "(case chain ?n of tmp # rest \<Rightarrow> \<lparr>ety = snd tmp, chain = rest\<rparr>
                    | [] \<Rightarrow> ?n\<lparr>ety := (ety ?n)\<lparr>key := 0\<rparr>\<rparr>)"
      have r: "hashmap_remove_entry h k =
          Inr (\<lparr>key = k, val = val (ety ?n)\<rparr>, h\<lparr>array := (array h)[i := ?n'], count := count h - 1\<rparr>)"
        using unf root True cmp ent by (simp add: Let_def)
      have ck: "\<forall>x \<in> set (chain ?n). key (snd x) \<noteq> 0" using wfs by (auto simp: wf_slot_def se)
      have p: "slot_entries ?n' = del_entries k (slot_entries ?n)"
          "key (ety ?n') = 0 \<longrightarrow> chain ?n' = []"
          "set (map fst (chain ?n')) \<subseteq> set (map fst (chain ?n))"
          "distinct (map fst (chain ?n'))"
        using True root ck da by (auto simp: se slot_entries_def split: list.splits)
      from fin[OF r p(1) _ p(2,3,4)] True some show ?thesis by (simp add: se)
    next
      case neq: False
      show ?thesis
      proof (cases "remove_chain (compare h) k (chain ?n)")
        case None
        then have "k \<notin> key ` set (map snd (chain ?n))" using remove_chain_None[OF cmp] by blast
        then have "map_of (map kv (map snd (chain ?n))) k = None"
          by (simp only: map_of_kv_None not_False_eq_True)
        then have "lookup h k = None" using neq by (simp add: lk se kv_def)
        with None unf root neq cmp show ?thesis by simp
      next
        case (Some ec)
        obtain e c' where ec: "ec = (e, c')" by (cases ec)
        note S = remove_chain_Some[OF cmp Some[unfolded ec]]
        have some: "lookup h k = Some (val e)" using S neq by (simp add: lk se kv_def)
        have ent: "e = \<lparr>key = k, val = val e\<rparr>" using S by (cases e) simp
        have r: "hashmap_remove_entry h k =
            Inr (\<lparr>key = k, val = val e\<rparr>, h\<lparr>array := (array h)[i := ?n\<lparr>chain := c'\<rparr>], count := count h - 1\<rparr>)"
          using unf root neq cmp Some ec ent by simp
        have kin: "k \<in> key ` set (slot_entries ?n)"
          using some map_of_kv_None[of "slot_entries ?n" k] by (simp add: lk)
        have p: "slot_entries (?n\<lparr>chain := c'\<rparr>) = del_entries k (slot_entries ?n)"
          "set (map fst (chain (?n\<lparr>chain := c'\<rparr>))) \<subseteq> set (map fst (chain ?n))"
          "distinct (map fst (chain (?n\<lparr>chain := c'\<rparr>)))"
          using S neq root da by (auto simp: slot_entries_def)
        from fin[OF r p(1) kin _ p(2,3)] root some show ?thesis by simp
      qed
    qed
  qed
qed

subsection \<open>Remove and clear\<close>

lemma lookup_example: "lookup example_map 9 = Some 90" "lookup example_map 3 = None"
  by (simp_all add: lookup_def example_map_def hash_id_def slot_entries_def kv_def null_node_def null_entry_def)

text \<open>
  Claim C7. On a well-formed map, removing a key that is present returns the matched entry
  (key and value) through the out-parameter, the wrapper \<open>hashmap_remove\<close> returns its
  value, and the count is one less; removing a key that is absent returns the map as it
  was, count included, and the out-parameter holds \<open>NULL\<close> for key and value.
\<close>

theorem remove_present_or_absent:
  assumes "wellformed h"
  shows "(\<forall>v. lookup h k = Some v \<longrightarrow>
            (\<exists>h'. hashmap_remove_entry h k = Inr (\<lparr>key = k, val = v\<rparr>, h') \<and>
                  hashmap_remove h k = Inr (v, h') \<and>
                  hashmap_count h' = hashmap_count h - 1)) \<and>
         (lookup h k = None \<longrightarrow>
            hashmap_remove_entry h k = Inr (null_entry, h) \<and> hashmap_remove h k = Inr (0, h))"
  using hashmap_remove_entry_wellformed[OF assms, of k]
  by (auto simp: hashmap_remove_def hashmap_count_def null_entry_def split: option.splits)

theorem remove_present_or_absent_witness:
  "wellformed example_map \<and> lookup example_map 9 = Some 90 \<and>
   (\<exists>h'. hashmap_remove_entry example_map 9 = Inr (\<lparr>key = 9, val = 90\<rparr>, h') \<and>
         hashmap_remove example_map 9 = Inr (90, h') \<and>
         hashmap_count h' = hashmap_count example_map - 1) \<and>
   lookup example_map 3 = None \<and>
   hashmap_remove_entry example_map 3 = Inr (null_entry, example_map) \<and>
   hashmap_remove example_map 3 = Inr (0, example_map)"
  using remove_present_or_absent[OF wellformed_example, of 9]
    remove_present_or_absent[OF wellformed_example, of 3] wellformed_example lookup_example
  by simp

lemma entries_drop_Suc:
  "ii < length arr \<Longrightarrow> entries (drop ii arr) = slot_entries (arr ! ii) @ entries (drop (Suc ii) arr)"
  by (simp add: entries_def flip: Cons_nth_drop_Suc)

lemma entries_take_Suc:
  "ii < length arr \<Longrightarrow> entries (take (Suc ii) arr) = entries (take ii arr) @ slot_entries (arr ! ii)"
  by (simp add: entries_def take_Suc_conv_app_nth)

lemma clear_loop_correct:
  "length (array h) = arraySize h \<and> ii \<le> arraySize h \<and>
   count h = int (length (entries (drop ii (array h)))) \<and> entries (take ii (array h)) = []
   \<longrightarrow> (\<exists>h'. clear_loop h ii = Inr h' \<and> count h' = 0 \<and> entries (array h') = [] \<and>
          arraySize h' = arraySize h \<and> length (array h') = arraySize h \<and>
          hash h' = hash h \<and> compare h' = compare h)"
proof (induct h ii rule: clear_loop.induct)
  case (1 h ii)
  show ?case
  proof (intro impI, elim conjE)
    assume len: "length (array h) = arraySize h" and le: "ii \<le> arraySize h"
      and c: "count h = int (length (entries (drop ii (array h))))"
      and e: "entries (take ii (array h)) = []"
    show "\<exists>h'. clear_loop h ii = Inr h' \<and> count h' = 0 \<and> entries (array h') = [] \<and>
          arraySize h' = arraySize h \<and> length (array h') = arraySize h \<and>
          hash h' = hash h \<and> compare h' = compare h"
    proof (cases "ii < arraySize h")
      case False
      with le len have "ii = length (array h)" by simp
      with c e False len show ?thesis by (simp add: clear_loop.simps entries_def)
    next
      case lt: True
      then have il: "ii < length (array h)" using len by simp
      let ?node = "array h ! ii"
      have na: "node_at h ii = Inr ?node" using il by (simp add: node_at_def)
      show ?thesis
      proof (cases "key (ety ?node) = 0")
        case True
        then have se: "slot_entries ?node = []" by (simp add: slot_entries_def)
        have "clear_loop h ii = clear_loop h (ii + 1)"
          using lt na True by (simp add: clear_loop.simps[of h ii])
        moreover have "\<exists>h'. clear_loop h (ii + 1) = Inr h' \<and> count h' = 0 \<and> entries (array h') = [] \<and>
          arraySize h' = arraySize h \<and> length (array h') = arraySize h \<and>
          hash h' = hash h \<and> compare h' = compare h"
          using 1(1)[OF lt na True] len lt c e entries_drop_Suc[OF il] entries_take_Suc[OF il] se
          by simp
        ultimately show ?thesis by simp
      next
        case False
        then have se: "slot_entries ?node = ety ?node # map snd (chain ?node)"
          by (simp add: slot_entries_def)
        let ?h1 = "node_empty h (chain ?node)"
        let ?h2 = "?h1\<lparr>array := (array ?h1)[ii := ?node\<lparr>ety := (ety ?node)\<lparr>key := 0\<rparr>, chain := []\<rparr>],
                           count := count ?h1 - 1\<rparr>"
        have c2: "count ?h2 = int (length (entries (drop (Suc ii) (array h))))"
          using c entries_drop_Suc[OF il] by (simp add: node_empty_fields se)
        have arr2: "array ?h2 = (array h)[ii := ?node\<lparr>ety := (ety ?node)\<lparr>key := 0\<rparr>, chain := []\<rparr>]"
          by (simp add: node_empty_fields)
        have d2: "drop (Suc ii) (array ?h2) = drop (Suc ii) (array h)"
          by (simp add: arr2)
        have t2: "entries (take (Suc ii) (array ?h2)) = []"
          using e il by (simp add: arr2 entries_take_Suc slot_entries_def)
        have nonneg: "0 \<le> count ?h2" using c2 by simp
        have step: "clear_loop h ii = clear_loop ?h2 (ii + 1)"
          using lt na False nonneg by (simp add: clear_loop.simps[of h ii] Let_def)
        have "\<exists>h'. clear_loop ?h2 (ii + 1) = Inr h' \<and> count h' = 0 \<and> entries (array h') = [] \<and>
          arraySize h' = arraySize ?h2 \<and> length (array h') = arraySize ?h2 \<and>
          hash h' = hash ?h2 \<and> compare h' = compare ?h2"
          using 1(2)[OF lt na False refl refl nonneg] len lt c2 d2 t2
          by (simp add: node_empty_fields)
        then show ?thesis using step by (simp add: node_empty_fields)
      qed
    qed
  qed
qed

text \<open>
  Claim C9. \<open>hashmap_clear\<close> on a well-formed map, empty or not, returns a map whose count
  is exactly 0, which holds no entry, and in which \<open>hashmap_get\<close> finds no key.
\<close>

theorem clear_empties_map:
  assumes "wellformed h"
  shows "\<exists>h'. hashmap_clear h = Inr h' \<and> hashmap_count h' = 0 \<and> entries (array h') = [] \<and>
           (\<forall>k. hashmap_get h' k = Inr 0)"
proof -
  have "length (array h) = arraySize h" "count h = int (length (entries (array h)))"
    using assms by (simp_all add: wellformed_def valid_def)
  with clear_loop_correct[of h 0] obtain h' where
    h': "clear_loop h 0 = Inr h'" "count h' = 0" "entries (array h') = []"
    by (auto simp: entries_def)
  then have "hashmap_clear h = Inr h'" by (simp add: hashmap_clear_def hashmap_count_def)
  moreover have "hashmap_get h' k = Inr 0" for k
    using h'(2) by (simp add: hashmap_get_def hashmap_count_def)
  ultimately show ?thesis using h' by (auto simp: hashmap_count_def)
qed

theorem clear_empties_map_witness:
  "wellformed example_map \<and>
   (\<exists>h'. hashmap_clear example_map = Inr h' \<and> hashmap_count h' = 0 \<and> entries (array h') = [] \<and>
      (\<forall>k. hashmap_get h' k = Inr 0)) \<and>
   hashmap_get example_map 9 = Inr 90"
proof -
  have "hashmap_get example_map 9 = Inr 90"
    using wellformed_example lookup_example by (simp add: hashmap_get_lookup wellformed_def)
  then show ?thesis
    using clear_empties_map[OF wellformed_example] wellformed_example by simp
qed

subsection \<open>The scenario with four slots\<close>

text \<open>
  Claim C3, as stated, fails: with hash(x) = x and an initial array size of 4, the third
  Put of the keys 1, 2, 3 already grows the array, so after three Puts the size is 8, not 4.
\<close>

theorem third_put_grows_counterexample:
  "(case puts (hashmap_new hash_id cmp_eq 4) [(1, 10), (2, 20), (3, 30)] of
      Inl e \<Rightarrow> False
    | Inr h \<Rightarrow> hashmap_size h = 8 \<and> hashmap_size h \<noteq> 4)"
  by code_simp

lemma hashmap_put_new_key:
  assumes "wellformed h" "k \<noteq> 0" "v \<noteq> 0" "lookup h k = None" "count h < int (arraySize h)"
    "count h < 32767"
  shows "\<exists>h'. hashmap_put h k v = Inr (0, h') \<and> wellformed h' \<and> lookup h' = (lookup h)(k \<mapsto> v) \<and>
           count h' = count h + 1 \<and>
           arraySize h' = (if 2 * count h < int (arraySize h) then arraySize h else 2 * arraySize h)"
  using hashmap_put_wellformed[OF assms(1,2,3)] assms(4,5,6) by auto

text \<open>
  Claim C3, amended. With an initial array size of 4 and four distinct keys, no key or
  value being \<open>NULL\<close>: after two Puts the array size is still 4 (load factor 0.5); the
  third Put grows the array to 8 before it inserts; the fourth Put does not grow; the
  size is 8 after the third and after the fourth Put and every key inserted is retrieved
  by Get with its value.
\<close>

theorem third_put_grows:
  assumes "\<forall>a b. cmp a b = 0 \<longleftrightarrow> a = b"
    and "distinct [k1, k2, k3, k4]" and "0 \<notin> set [k1, k2, k3, k4]" and "0 \<notin> set [v1, v2, v3, v4]"
  shows "\<exists>h2 h3 h4.
           puts (hashmap_new hf cmp 4) [(k1, v1), (k2, v2)] = Inr h2 \<and> hashmap_size h2 = 4 \<and>
           hashmap_put h2 k3 v3 = Inr (0, h3) \<and> hashmap_size h3 = 8 \<and>
           hashmap_put h3 k4 v4 = Inr (0, h4) \<and> hashmap_size h4 = 8 \<and>
           hashmap_get h4 k1 = Inr v1 \<and> hashmap_get h4 k2 = Inr v2 \<and>
           hashmap_get h4 k3 = Inr v3 \<and> hashmap_get h4 k4 = Inr v4"
proof -
  let ?h0 = "hashmap_new hf cmp 4"
  have w0: "wellformed ?h0" by (rule wellformed_new) (use assms(1) in simp_all)
  have l0: "lookup ?h0 = Map.empty" by (rule ext) (simp add: lookup_new)
  have c0: "count ?h0 = 0" "arraySize ?h0 = 4" by (simp_all add: hashmap_new_def)
  from hashmap_put_new_key[OF w0, of k1 v1] assms(3,4) l0 c0 obtain h1 where
    h1: "hashmap_put ?h0 k1 v1 = Inr (0, h1)" "wellformed h1" "lookup h1 = [k1 \<mapsto> v1]"
      "count h1 = 1" "arraySize h1 = 4" by auto
  from hashmap_put_new_key[OF h1(2), of k2 v2] assms(2,3,4) h1(3,4,5) obtain h2 where
    h2: "hashmap_put h1 k2 v2 = Inr (0, h2)" "wellformed h2" "lookup h2 = [k1 \<mapsto> v1, k2 \<mapsto> v2]"
      "count h2 = 2" "arraySize h2 = 4" by auto
  from hashmap_put_new_key[OF h2(2), of k3 v3] assms(2,3,4) h2(3,4,5) obtain h3 where
    h3: "hashmap_put h2 k3 v3 = Inr (0, h3)" "wellformed h3"
      "lookup h3 = [k1 \<mapsto> v1, k2 \<mapsto> v2, k3 \<mapsto> v3]"
      "count h3 = 3" "arraySize h3 = 8" by auto
  from hashmap_put_new_key[OF h3(2), of k4 v4] assms(2,3,4) h3(3,4,5) obtain h4 where
    h4: "hashmap_put h3 k4 v4 = Inr (0, h4)" "wellformed h4"
      "lookup h4 = [k1 \<mapsto> v1, k2 \<mapsto> v2, k3 \<mapsto> v3, k4 \<mapsto> v4]"
      "count h4 = 4" "arraySize h4 = 8" by auto
  have "puts ?h0 [(k1, v1), (k2, v2)] = Inr h2" using h1(1) h2(1) by simp
  moreover have "hashmap_get h4 k1 = Inr v1" "hashmap_get h4 k2 = Inr v2"
    "hashmap_get h4 k3 = Inr v3" "hashmap_get h4 k4 = Inr v4"
    using h4(2,3) assms(2) by (simp_all add: hashmap_get_lookup wellformed_def)
  ultimately show ?thesis
    using h2(5) h3(1,5) h4(1,5) by (auto simp: hashmap_size_def)
qed

theorem third_put_grows_witness:
  "(\<forall>a b. cmp_eq a b = 0 \<longleftrightarrow> a = b) \<and> distinct [1, 2, 3, 4::nat] \<and>
   (0::nat) \<notin> set [1, 2, 3, 4] \<and> (0::nat) \<notin> set [10, 20, 30, 40] \<and>
   (\<exists>h2 h3 h4.
      puts (hashmap_new hash_id cmp_eq 4) [(1, 10), (2, 20)] = Inr h2 \<and> hashmap_size h2 = 4 \<and>
      hashmap_put h2 3 30 = Inr (0, h3) \<and> hashmap_size h3 = 8 \<and>
      hashmap_put h3 4 40 = Inr (0, h4) \<and> hashmap_size h4 = 8 \<and>
      hashmap_get h4 1 = Inr 10 \<and> hashmap_get h4 2 = Inr 20 \<and>
      hashmap_get h4 3 = Inr 30 \<and> hashmap_get h4 4 = Inr 40)"
proof -
  have c: "\<forall>a b. cmp_eq a b = 0 \<longleftrightarrow> a = b" by (simp add: cmp_eq_iff)
  have d: "distinct [1, 2, 3, 4::nat]" "(0::nat) \<notin> set [1, 2, 3, 4]" "(0::nat) \<notin> set [10, 20, 30, 40]"
    by simp_all
  from third_put_grows[OF c d, of hash_id] c d show ?thesis by blast
qed

subsection \<open>Put on a key that is present\<close>

lemma chain_shape_eq:
  "map fst c' = map fst c \<Longrightarrow> map (key \<circ> snd) c' = map (key \<circ> snd) c \<Longrightarrow>
   map (\<lambda>x. (fst x, key (snd x))) c' = map (\<lambda>x. (fst x, key (snd x))) c"
proof (induction c arbitrary: c')
  case Nil
  then show ?case by simp
next
  case (Cons a c)
  then show ?case by (cases c') auto
qed

lemma put_slot_shape:
  assumes val: "valid h" and k: "k \<noteq> 0" and v: "v \<noteq> 0" and some: "lookup h k = Some v0"
    and r: "put_slot h k v = Inr (x, h')"
  shows "map shape (array h') = map shape (array h)"
proof -
  define i where "i = hash h k mod arraySize h"
  let ?n = "array h ! i"
  have i: "i < length (array h)" using val by (simp add: valid_def i_def)
  have room: "lookup h k \<noteq> None \<or> count h < 32767" using some by simp
  from put_slot_char[OF val k v room, folded i_def] obtain n' c' where
    big: "put_slot h k v =
            Inr (case lookup h k of None \<Rightarrow> 0 | Some x \<Rightarrow> x, h\<lparr>count := c', array := (array h)[i := n']\<rparr>) \<and>
          c' = (if lookup h k = None then count h + 1 else count h) \<and>
          slot_entries n' = upd_entries k v (slot_entries ?n) \<and>
          key (ety n') \<noteq> 0 \<and>
          map fst (chain n') = map fst (chain ?n) @
             (if key (ety ?n) \<noteq> 0 \<and> lookup h k = None then [fresh_addr h] else [])"
    by blast
  have r': "put_slot h k v = Inr (v0, h\<lparr>count := c', array := (array h)[i := n']\<rparr>)"
    and se: "slot_entries n' = upd_entries k v (slot_entries ?n)"
    and kn: "key (ety n') \<noteq> 0"
    and ad: "map fst (chain n') = map fst (chain ?n)"
    using big some by auto
  have lk: "lookup h k = map_of (map kv (slot_entries ?n)) k" by (simp add: lookup_def i_def)
  have kin: "k \<in> key ` set (slot_entries ?n)"
    using some map_of_kv_None[of "slot_entries ?n" k] by (simp add: lk)
  then have rn: "key (ety ?n) \<noteq> 0" by (auto simp: slot_entries_def split: if_splits)
  have "map key (slot_entries n') = map key (slot_entries ?n)"
    using kin by (simp add: se keys_upd_entries)
  then have ke: "key (ety n') = key (ety ?n)"
    and kc: "map (key \<circ> snd) (chain n') = map (key \<circ> snd) (chain ?n)"
    using rn kn by (simp_all add: slot_entries_def)
  have "shape n' = shape ?n"
    using ke chain_shape_eq[OF ad kc] by (simp add: shape_def)
  moreover have "array h' = (array h)[i := n']" using r r' by auto
  ultimately have "shape n' = shape ?n" "array h' = (array h)[i := n']" by simp_all
  then have "map shape (array h') = (map shape (array h))[i := shape ?n]"
    by (simp only: map_update)
  also have "\<dots> = map shape (array h)"
    using i by (simp add: list_update_same_conv)
  finally show ?thesis .
qed

text \<open>
  Claim C8, as stated, fails: Put runs the growth test before it looks for the key. The
  map with four slots that holds the keys 1 and 5 (5 in the chain of slot 1) has a load
  factor of 0.5, so Put of the key 1 with a new value grows the array to eight slots and
  rehashes: the entry with key 5 leaves the chain of slot 1 and becomes the root of slot 5.
\<close>

theorem put_existing_key_rehashes_counterexample:
  "(case puts (hashmap_new hash_id cmp_eq 4) [(1, 10), (5, 50)] of
      Inl e \<Rightarrow> False
    | Inr h \<Rightarrow>
        hashmap_size h = 4 \<and> shape (array h ! 1) = (1, [(1, 5)]) \<and>
        (case hashmap_put h 1 11 of
           Inl e \<Rightarrow> False
         | Inr (r, h') \<Rightarrow>
             r = 10 \<and> hashmap_size h' = 8 \<and> shape (array h' ! 1) = (1, []) \<and>
             shape (array h' ! 5) = (5, []) \<and> map shape (array h') \<noteq> map shape (array h)))"
  by code_simp

text \<open>
  Claim C8, amended. On a well-formed map that holds the key, Put with that key and a
  value other than \<open>NULL\<close> returns the previous value, leaves the count unchanged, makes
  Get of the key return the new value and leaves Get of every other key as it was. When
  the load factor before the call is below 0.5, it changes nothing else: every slot keeps
  its root key and its chain nodes with their keys, in the same order. (At a load factor
  of 0.5 or more the array is grown and the entries are rehashed first.)
\<close>

theorem put_existing_key:
  assumes "wellformed h" and "lookup h k = Some v0" and "v \<noteq> 0"
  shows "\<exists>h'. hashmap_put h k v = Inr (v0, h') \<and> hashmap_count h' = hashmap_count h \<and>
           hashmap_get h' k = Inr v \<and>
           (\<forall>k'. k' \<noteq> k \<longrightarrow> hashmap_get h' k' = hashmap_get h k') \<and>
           (2 * count h < int (arraySize h) \<longrightarrow>
              arraySize h' = arraySize h \<and> map shape (array h') = map shape (array h))"
proof -
  have val: "valid h" using assms(1) by (simp add: wellformed_def)
  have k: "k \<noteq> 0"
  proof
    assume "k = 0"
    let ?n = "array h ! (hash h k mod arraySize h)"
    have "k \<in> key ` set (slot_entries ?n)"
      using assms(2) map_of_kv_None[of "slot_entries ?n" k] by (simp add: lookup_def)
    with valid_slot[OF val, of "hash h k mod arraySize h"] val \<open>k = 0\<close> show False
      by (auto simp: wf_slot_def valid_def)
  qed
  from hashmap_put_wellformed[OF assms(1) k assms(3)] assms(2) obtain h' where
    p: "hashmap_put h k v = Inr (v0, h')" and w': "wellformed h'"
    and l': "lookup h' = (lookup h)(k \<mapsto> v)" and c': "count h' = count h"
    and s': "count h < int (arraySize h) \<longrightarrow>
              arraySize h' = (if 2 * count h < int (arraySize h) then arraySize h else 2 * arraySize h)"
    by auto
  have g: "hashmap_get h' k = Inr v" "\<forall>k'. k' \<noteq> k \<longrightarrow> hashmap_get h' k' = hashmap_get h k'"
    using w' val l' by (simp_all add: hashmap_get_lookup wellformed_def)
  have st: "arraySize h' = arraySize h \<and> map shape (array h') = map shape (array h)"
    if lt: "2 * count h < int (arraySize h)"
  proof -
    have "hashmap_put h k v = put_slot h k v"
      using k assms(3) lt by (simp add: hashmap_put.simps ensurecapacity.simps)
    with p have "put_slot h k v = Inr (v0, h')" by simp
    from put_slot_shape[OF val k assms(3) assms(2) this] s' lt val show ?thesis
      by (auto simp: valid_def)
  qed
  from p c' g st show ?thesis by (auto simp: hashmap_count_def)
qed

theorem put_existing_key_witness:
  "wellformed example_map \<and> lookup example_map 9 = Some 90 \<and> (91::nat) \<noteq> 0 \<and>
   2 * count example_map < int (arraySize example_map) \<and>
   (\<exists>h'. hashmap_put example_map 9 91 = Inr (90, h') \<and>
      hashmap_count h' = hashmap_count example_map \<and> hashmap_get h' 9 = Inr 91 \<and>
      hashmap_get h' 1 = hashmap_get example_map 1 \<and>
      arraySize h' = arraySize example_map \<and> map shape (array h') = map shape (array example_map))"
proof -
  have lt: "2 * count example_map < int (arraySize example_map)" by (simp add: example_map_def)
  from put_existing_key[OF wellformed_example lookup_example(1), of 91] lt
    wellformed_example lookup_example(1)
  show ?thesis by auto
qed

subsection \<open>Iteration\<close>

lemma skip_empty_correct:
  "length (array h) = arraySize h \<and> c \<le> arraySize h \<longrightarrow>
   (\<exists>c'. skip_empty h c = Inr c' \<and> c \<le> c' \<and> c' \<le> arraySize h \<and>
      entries (drop c' (array h)) = entries (drop c (array h)) \<and>
      (\<forall>j. c \<le> j \<and> j < c' \<longrightarrow> key (ety (array h ! j)) = 0) \<and>
      (c' < arraySize h \<longrightarrow> key (ety (array h ! c')) \<noteq> 0))"
proof (induct h c rule: skip_empty.induct)
  case (1 h c)
  show ?case
  proof (intro impI, elim conjE)
    assume len: "length (array h) = arraySize h" and le: "c \<le> arraySize h"
    show "\<exists>c'. skip_empty h c = Inr c' \<and> c \<le> c' \<and> c' \<le> arraySize h \<and>
      entries (drop c' (array h)) = entries (drop c (array h)) \<and>
      (\<forall>j. c \<le> j \<and> j < c' \<longrightarrow> key (ety (array h ! j)) = 0) \<and>
      (c' < arraySize h \<longrightarrow> key (ety (array h ! c')) \<noteq> 0)"
    proof (cases "c < arraySize h")
      case False
      then show ?thesis using le by (simp add: skip_empty.simps)
    next
      case lt: True
      then have cl: "c < length (array h)" using len by simp
      have na: "node_at h c = Inr (array h ! c)" using cl by (simp add: node_at_def)
      show ?thesis
      proof (cases "key (ety (array h ! c)) = 0")
        case False
        then show ?thesis using lt na by (simp add: skip_empty.simps[of h c])
      next
        case True
        then have se: "slot_entries (array h ! c) = []" by (simp add: slot_entries_def)
        from 1[OF lt na] True len lt obtain c' where
          r: "skip_empty h (c + 1) = Inr c'" "c + 1 \<le> c'" "c' \<le> arraySize h"
            "entries (drop c' (array h)) = entries (drop (c + 1) (array h))"
            "\<forall>j. c + 1 \<le> j \<and> j < c' \<longrightarrow> key (ety (array h ! j)) = 0"
            "c' < arraySize h \<longrightarrow> key (ety (array h ! c')) \<noteq> 0"
          by auto
        have "skip_empty h c = Inr c'" using lt na True r(1) by (simp add: skip_empty.simps[of h c])
        moreover have "entries (drop c' (array h)) = entries (drop c (array h))"
          using r(4) entries_drop_Suc[OF cl] se by simp
        moreover have "\<forall>j. c \<le> j \<and> j < c' \<longrightarrow> key (ety (array h ! j)) = 0"
        proof (intro allI impI)
          fix j assume "c \<le> j \<and> j < c'"
          then show "key (ety (array h ! j)) = 0" using r(5) True by (cases "j = c") auto
        qed
        ultimately show ?thesis using r(2,3,6) by auto
      qed
    qed
  qed
qed

lemma find_chain_None: "find_chain a c = None \<longleftrightarrow> a \<notin> fst ` set c"
  by (induction c) auto

lemma find_chain_nth:
  "distinct (map fst c) \<Longrightarrow> j < length c \<Longrightarrow>
   find_chain (fst (c ! j)) c = Some (snd (c ! j), drop (Suc j) c)"
proof (induction c arbitrary: j)
  case Nil
  then show ?case by simp
next
  case (Cons n ns)
  show ?case
  proof (cases j)
    case 0
    then show ?thesis by simp
  next
    case (Suc j')
    with Cons.prems have "ns ! j' \<in> set ns" by simp
    then have "fst (ns ! j') \<in> fst ` set ns" by (rule imageI)
    moreover have "fst n \<notin> fst ` set ns" using Cons.prems(1) by simp
    ultimately have "fst (ns ! j') \<noteq> fst n" by metis
    with Cons Suc show ?thesis by auto
  qed
qed

lemma find_node_nth:
  "distinct (live_addrs arr) \<Longrightarrow> i < length arr \<Longrightarrow> j < length (chain (arr ! i)) \<Longrightarrow>
   find_node (fst (chain (arr ! i) ! j)) arr =
     Some (snd (chain (arr ! i) ! j), drop (Suc j) (chain (arr ! i)))"
proof (induction arr arbitrary: i)
  case Nil
  then show ?case by simp
next
  case (Cons s ss)
  have ds: "distinct (map fst (chain s))" "distinct (live_addrs ss)"
    and dj: "fst ` set (chain s) \<inter> set (live_addrs ss) = {}"
    using Cons.prems(1) by (auto simp: live_addrs_def)
  show ?case
  proof (cases i)
    case 0
    with Cons.prems ds show ?thesis by (simp add: find_chain_nth)
  next
    case (Suc i')
    let ?a = "fst (chain (ss ! i') ! j)"
    have "?a \<in> set (live_addrs ss)"
      using Cons.prems(2,3) Suc by (auto simp: live_addrs_def intro!: bexI[of _ "ss ! i'"])
    with dj have "find_chain ?a (chain s) = None" by (auto simp: find_chain_None)
    with Cons.IH[OF ds(2), of i'] Cons.prems(2,3) Suc show ?thesis by simp
  qed
qed

lemma next_ptr_nonzero:
  "0 \<notin> fst ` set c \<Longrightarrow> c \<noteq> [] \<Longrightarrow> next_ptr c \<noteq> 0 \<and> next_ptr c = fst (c ! 0)"
  by (cases c) (auto simp: next_ptr_def)

lemma valid_keys_nonzero: "valid h \<Longrightarrow> 0 \<notin> key ` set (entries (array h))"
  by (fastforce simp: entries_mem valid_def wf_slot_def)

lemma chain_addrs_live:
  "i < length arr \<Longrightarrow> fst ` set (chain (arr ! i)) \<subseteq> set (live_addrs arr)"
  using nth_mem[of i arr] by (force simp: live_addrs_def)

lemma next_at_position:
  assumes wf: "wellformed h" and pos: "at_position h it ks"
  shows "\<exists>it'. hashmap_iterator_next h it = Inr (case ks of [] \<Rightarrow> 0 | k # ks' \<Rightarrow> k, it') \<and>
           at_position h it' (tl ks) \<and> (ks = [] \<or> hd ks \<noteq> 0)"
proof -
  have val: "valid h" and ad: "addrs_ok h" using wf by (simp_all add: wellformed_def)
  have len: "length (array h) = arraySize h" using val by (simp add: valid_def)
  have dl: "distinct (live_addrs (array h))" and z: "0 \<notin> set (live_addrs (array h))"
    using ad by (simp_all add: addrs_ok_def)
  show ?thesis
  proof (cases "cur_linked it = 0")
    case True
    with pos have le: "cur it \<le> arraySize h" and ks: "ks = map key (entries (drop (cur it) (array h)))"
      by (simp_all add: at_position_def)
    from skip_empty_correct[of h "cur it"] len le obtain c where
      sk: "skip_empty h (cur it) = Inr c" and c: "cur it \<le> c" "c \<le> arraySize h"
      and ec: "entries (drop c (array h)) = entries (drop (cur it) (array h))"
      and kc: "c < arraySize h \<longrightarrow> key (ety (array h ! c)) \<noteq> 0"
      by blast
    show ?thesis
    proof (cases "c = arraySize h")
      case True
      then have "ks = []" using ks ec len by (simp add: entries_def)
      moreover have "hashmap_iterator_next h it = Inr (0, it\<lparr>cur := c\<rparr>)"
        using \<open>cur_linked it = 0\<close> sk True by (simp add: hashmap_iterator_next_def)
      moreover have "at_position h (it\<lparr>cur := c\<rparr>) []"
        using \<open>cur_linked it = 0\<close> True len by (simp add: at_position_def entries_def)
      ultimately show ?thesis by simp
    next
      case False
      then have lt: "c < arraySize h" using c by simp
      then have cl: "c < length (array h)" using len by simp
      let ?n = "array h ! c"
      have kn: "key (ety ?n) \<noteq> 0" using kc lt by simp
      have na: "node_at h c = Inr ?n" using cl by (simp add: node_at_def)
      have "ks = map key (entries (drop c (array h)))" using ks ec by simp
      then have ks': "ks = key (ety ?n) # map (key \<circ> snd) (chain ?n) @ map key (entries (drop (Suc c) (array h)))"
        using kn by (simp add: entries_drop_Suc[OF cl] slot_entries_def)
      show ?thesis
      proof (cases "chain ?n = []")
        case True
        have "hashmap_iterator_next h it = Inr (key (ety ?n), it\<lparr>cur := c + 1\<rparr>)"
          using \<open>cur_linked it = 0\<close> sk False na True by (simp add: hashmap_iterator_next_def)
        moreover have "at_position h (it\<lparr>cur := c + 1\<rparr>) (tl ks)"
          using \<open>cur_linked it = 0\<close> lt ks' True by (simp add: at_position_def)
        ultimately show ?thesis using ks' kn by simp
      next
        case ne: False
        have "0 \<notin> fst ` set (chain ?n)" using chain_addrs_live[OF cl] z by auto
        from next_ptr_nonzero[OF this ne] have np: "next_ptr (chain ?n) \<noteq> 0"
          "next_ptr (chain ?n) = fst (chain ?n ! 0)" by simp_all
        have "hashmap_iterator_next h it = Inr (key (ety ?n), it\<lparr>cur := c, cur_linked := next_ptr (chain ?n)\<rparr>)"
          using \<open>cur_linked it = 0\<close> sk False na ne by (simp add: hashmap_iterator_next_def)
        moreover have "at_position h (it\<lparr>cur := c, cur_linked := next_ptr (chain ?n)\<rparr>) (tl ks)"
          using np lt ks' ne by (auto simp: at_position_def intro!: exI[of _ 0])
        ultimately show ?thesis using ks' kn by simp
      qed
    qed
  next
    case False
    let ?n = "array h ! cur it"
    from pos False obtain j where lt: "cur it < arraySize h" and j: "j < length (chain ?n)"
      and a: "fst (chain ?n ! j) = cur_linked it"
      and ks: "ks = map (key \<circ> snd) (drop j (chain ?n)) @ map key (entries (drop (Suc (cur it)) (array h)))"
      by (auto simp: at_position_def)
    have cl: "cur it < length (array h)" using lt len by simp
    have na: "node_at h (cur it) = Inr ?n" using cl by (simp add: node_at_def)
    have ne: "chain ?n \<noteq> []" using j by auto
    have "wf_slot (hash h) (arraySize h) (cur it) ?n" using val lt by (simp add: valid_def)
    then have "\<forall>x \<in> set (chain ?n). key (snd x) \<noteq> 0"
      using ne by (auto simp: wf_slot_def slot_entries_def split: if_splits)
    then have kj: "key (snd (chain ?n ! j)) \<noteq> 0" using j by simp
    let ?rest = "drop (Suc j) (chain ?n)"
    have dr: "deref h (cur_linked it) = Inr \<lparr>ety = snd (chain ?n ! j), chain = ?rest\<rparr>"
      using find_node_nth[OF dl cl j] a by (simp add: deref_def)
    have ks': "ks = key (snd (chain ?n ! j)) # map (key \<circ> snd) ?rest @ map key (entries (drop (Suc (cur it)) (array h)))"
      using ks j by (simp flip: Cons_nth_drop_Suc)
    let ?it' = "it\<lparr>cur := (if ?rest = [] then cur it + 1 else cur it), cur_linked := next_ptr ?rest\<rparr>"
    have r: "hashmap_iterator_next h it = Inr (key (snd (chain ?n ! j)), ?it')"
      using False na ne dr by (simp add: hashmap_iterator_next_def)
    have "at_position h ?it' (tl ks)"
    proof (cases "?rest = []")
      case True
      then show ?thesis using lt ks' by (simp add: at_position_def next_ptr_def)
    next
      case nr: False
      have "0 \<notin> fst ` set ?rest"
        using chain_addrs_live[OF cl] z set_drop_subset[of "Suc j" "chain ?n"] by auto
      from next_ptr_nonzero[OF this nr] have np: "next_ptr ?rest \<noteq> 0"
        "next_ptr ?rest = fst (?rest ! 0)" by simp_all
      have sj: "Suc j < length (chain ?n)" using nr by simp
      then have "fst (chain ?n ! Suc j) = next_ptr ?rest" using np(2) by simp
      with np(1) nr lt sj ks' show ?thesis
        by (auto simp: at_position_def intro!: exI[of _ "Suc j"])
    qed
    with r ks' kj show ?thesis by simp
  qed
qed

lemma iterate_at_position:
  assumes "wellformed h" "at_position h it ks" "length ks < fuel"
  shows "iterate fuel h it = Some (Inr ks)"
  using assms
proof (induction ks arbitrary: it fuel)
  case Nil
  then obtain f where f: "fuel = Suc f" by (cases fuel) auto
  from next_at_position[OF Nil(1,2)] show ?case by (auto simp: f)
next
  case (Cons k ks)
  then obtain f where f: "fuel = Suc f" by (cases fuel) auto
  from next_at_position[OF Cons.prems(1,2)] obtain it' where
    n: "hashmap_iterator_next h it = Inr (k, it')" and p: "at_position h it' ks"
    and k0: "k \<noteq> 0" by auto
  from Cons.IH[OF Cons.prems(1) p, of f] Cons.prems(3) f have "iterate f h it' = Some (Inr ks)" by simp
  with n k0 show ?case by (simp add: f)
qed

lemma puts_wellformed:
  assumes "wellformed h" "distinct (map fst kvs)" "0 \<notin> fst ` set kvs" "0 \<notin> snd ` set kvs"
    "dom (lookup h) \<inter> fst ` set kvs = {}" "count h + int (length kvs) < 32768"
  shows "\<exists>h'. puts h kvs = Inr h' \<and> wellformed h' \<and>
           dom (lookup h') = dom (lookup h) \<union> fst ` set kvs \<and>
           count h' = count h + int (length kvs)"
  using assms
proof (induction kvs arbitrary: h)
  case Nil
  then show ?case by simp
next
  case (Cons p ps)
  obtain k v where p: "p = (k, v)" by (cases p)
  have k: "k \<noteq> 0" "v \<noteq> 0" using Cons.prems(3,4) p by auto
  have none: "lookup h k = None" using Cons.prems(5) p by auto
  have room: "lookup h k \<noteq> None \<or> count h < 32767" using Cons.prems(6) by simp
  from hashmap_put_wellformed[OF Cons.prems(1) k room] none obtain h1 where
    h1: "hashmap_put h k v = Inr (0, h1)" "wellformed h1" "lookup h1 = (lookup h)(k \<mapsto> v)"
      "count h1 = count h + 1" by auto
  have d1: "dom (lookup h1) \<inter> fst ` set ps = {}"
    using Cons.prems(2,5) p by (auto simp: h1(3))
  from Cons.IH[OF h1(2) _ _ _ d1] Cons.prems(2,3,4,6) h1(4) obtain h' where
    "puts h1 ps = Inr h'" "wellformed h'" "dom (lookup h') = dom (lookup h1) \<union> fst ` set ps"
    "count h' = count h1 + int (length ps)" by auto
  then show ?case using h1 p by (auto simp: h1(3))
qed

lemma at_position_start:
  "at_position h (hashmap_iterator h) (map key (entries (array h)))"
  by (simp add: at_position_def hashmap_iterator_def)

text \<open>
  Claim C4. M distinct keys, none of them \<open>NULL\<close>, put with values other than \<open>NULL\<close>
  into a map created with any hash function and any positive array size: every Put
  returns, and a fresh iterator driven to completion (M calls of Next that return a key,
  and one that returns \<open>NULL\<close>) yields M keys, each once, which are exactly the keys
  inserted. (M is below 32768, the ceiling that \<open>__nodeassign\<close> asserts.)
\<close>

theorem iterate_yields_inserted_keys:
  assumes "\<forall>a b. cmp a b = 0 \<longleftrightarrow> a = b" and "0 < n"
    and "distinct (map fst kvs)" and "0 \<notin> fst ` set kvs" and "0 \<notin> snd ` set kvs"
    and "length kvs < 32768"
  shows "\<exists>h ks. puts (hashmap_new hf cmp n) kvs = Inr h \<and>
           iterate (Suc (length kvs)) h (hashmap_iterator h) = Some (Inr ks) \<and>
           length ks = length kvs \<and> distinct ks \<and> set ks = fst ` set kvs"
proof -
  let ?h0 = "hashmap_new hf cmp n"
  have w0: "wellformed ?h0" by (rule wellformed_new[OF assms(2,1)])
  have l0: "dom (lookup ?h0) = {}" using assms(2) by (auto simp: lookup_new)
  have c0: "count ?h0 = 0" by (simp add: hashmap_new_def)
  from puts_wellformed[OF w0 assms(3,4,5)] l0 c0 assms(6) obtain h where
    h: "puts ?h0 kvs = Inr h" "wellformed h" "dom (lookup h) = fst ` set kvs"
      "count h = int (length kvs)" by auto
  have val: "valid h" using h(2) by (simp add: wellformed_def)
  let ?ks = "map key (entries (array h))"
  have len: "length ?ks = length kvs" using val h(4) by (simp add: valid_def)
  have "iterate (Suc (length kvs)) h (hashmap_iterator h) = Some (Inr ?ks)"
    by (rule iterate_at_position[OF h(2) at_position_start]) (use len in simp)
  moreover have "distinct ?ks" by (rule valid_distinct_keys[OF val])
  moreover have "set ?ks = fst ` set kvs" using valid_dom_lookup[OF val] h(3) by simp
  ultimately show ?thesis using h(1) len by blast
qed

theorem iterate_yields_inserted_keys_witness:
  "(\<forall>a b. cmp_eq a b = 0 \<longleftrightarrow> a = b) \<and> (0::nat) < 2 \<and>
   distinct (map fst [(1::nat, 10::nat), (3, 30), (5, 50)]) \<and>
   (0::nat) \<notin> fst ` set [(1::nat, 10::nat), (3, 30), (5, 50)] \<and>
   (0::nat) \<notin> snd ` set [(1::nat, 10::nat), (3, 30), (5, 50)] \<and>
   length [(1::nat, 10::nat), (3, 30), (5, 50)] < 32768 \<and>
   (\<exists>h ks. puts (hashmap_new hash_id cmp_eq 2) [(1, 10), (3, 30), (5, 50)] = Inr h \<and>
      iterate (Suc (length [(1::nat, 10::nat), (3, 30), (5, 50)])) h (hashmap_iterator h) = Some (Inr ks) \<and>
      length ks = length [(1::nat, 10::nat), (3, 30), (5, 50)] \<and> distinct ks \<and>
      set ks = fst ` set [(1::nat, 10::nat), (3, 30), (5, 50)])"
proof -
  have c: "\<forall>a b. cmp_eq a b = 0 \<longleftrightarrow> a = b" by (simp add: cmp_eq_iff)
  have d: "(0::nat) < 2" "distinct (map fst [(1::nat, 10::nat), (3, 30), (5, 50)])"
    "(0::nat) \<notin> fst ` set [(1::nat, 10::nat), (3, 30), (5, 50)]"
    "(0::nat) \<notin> snd ` set [(1::nat, 10::nat), (3, 30), (5, 50)]"
    "length [(1::nat, 10::nat), (3, 30), (5, 50)] < 32768"
    by simp_all
  from iterate_yields_inserted_keys[OF c d, of hash_id] c d show ?thesis by blast
qed

subsection \<open>Peek\<close>

lemma skip_empty_idem:
  assumes "length (array h) = arraySize h" "c0 \<le> arraySize h" "skip_empty h c0 = Inr c"
  shows "skip_empty h c = Inr c"
proof -
  from skip_empty_correct[of h c0] assms have
    c: "c \<le> arraySize h" "c < arraySize h \<longrightarrow> key (ety (array h ! c)) \<noteq> 0" by auto
  then show ?thesis using assms(1) by (simp add: skip_empty.simps[of h c] node_at_def)
qed

lemma peek_at_position:
  assumes wf: "wellformed h" and pos: "at_position h it ks"
  shows "\<exists>it_p. hashmap_iterator_peek h it = Inr (case ks of [] \<Rightarrow> 0 | k # ks' \<Rightarrow> k, it_p) \<and>
           at_position h it_p ks \<and>
           hashmap_iterator_next h it_p = hashmap_iterator_next h it \<and>
           (cur_linked it \<noteq> 0 \<longrightarrow> it_p = it) \<and>
           (cur_linked it = 0 \<longrightarrow>
              it_p = it\<lparr>cur := cur it_p\<rparr> \<and> cur it \<le> cur it_p \<and> cur it_p \<le> arraySize h \<and>
              (\<forall>j. cur it \<le> j \<and> j < cur it_p \<longrightarrow> key (ety (array h ! j)) = 0) \<and>
              (cur it_p < arraySize h \<longrightarrow> key (ety (array h ! cur it_p)) \<noteq> 0))"
proof -
  have val: "valid h" and ad: "addrs_ok h" using wf by (simp_all add: wellformed_def)
  have len: "length (array h) = arraySize h" using val by (simp add: valid_def)
  have dl: "distinct (live_addrs (array h))" using ad by (simp add: addrs_ok_def)
  show ?thesis
  proof (cases "cur_linked it = 0")
    case True
    with pos have le: "cur it \<le> arraySize h" and ks: "ks = map key (entries (drop (cur it) (array h)))"
      by (simp_all add: at_position_def)
    from skip_empty_correct[of h "cur it"] len le obtain c where
      sk: "skip_empty h (cur it) = Inr c" and c: "cur it \<le> c" "c \<le> arraySize h"
      and ec: "entries (drop c (array h)) = entries (drop (cur it) (array h))"
      and zc: "\<forall>j. cur it \<le> j \<and> j < c \<longrightarrow> key (ety (array h ! j)) = 0"
      and kc: "c < arraySize h \<longrightarrow> key (ety (array h ! c)) \<noteq> 0"
      by blast
    let ?it = "it\<lparr>cur := c\<rparr>"
    have ks2: "ks = map key (entries (drop c (array h)))" using ks ec by simp
    have pk: "hashmap_iterator_peek h it = Inr (case ks of [] \<Rightarrow> 0 | k # ks' \<Rightarrow> k, ?it)"
    proof (cases "c < arraySize h")
      case False
      then have "ks = []" using ks2 len by (simp add: entries_def)
      then show ?thesis using True sk False by (simp add: hashmap_iterator_peek_def)
    next
      case lt: True
      then have cl: "c < length (array h)" using len by simp
      have "ks = key (ety (array h ! c)) # map key (map snd (chain (array h ! c)) @ entries (drop (Suc c) (array h)))"
        using ks2 kc lt by (simp add: entries_drop_Suc[OF cl] slot_entries_def)
      then show ?thesis using True sk lt cl by (simp add: hashmap_iterator_peek_def node_at_def)
    qed
    have pos': "at_position h ?it ks" using True c ks2 by (simp add: at_position_def)
    have nx: "hashmap_iterator_next h ?it = hashmap_iterator_next h it"
      using True sk skip_empty_idem[OF len le sk]
      by (simp add: hashmap_iterator_next_def split: sum.splits)
    from pk pos' nx True c zc kc show ?thesis by (intro exI[of _ ?it]) simp
  next
    case False
    let ?n = "array h ! cur it"
    from pos False obtain j where lt: "cur it < arraySize h" and j: "j < length (chain ?n)"
      and a: "fst (chain ?n ! j) = cur_linked it"
      and ks: "ks = map (key \<circ> snd) (drop j (chain ?n)) @ map key (entries (drop (Suc (cur it)) (array h)))"
      by (auto simp: at_position_def)
    have cl: "cur it < length (array h)" using lt len by simp
    have dr: "deref h (cur_linked it) = Inr \<lparr>ety = snd (chain ?n ! j), chain = drop (Suc j) (chain ?n)\<rparr>"
      using find_node_nth[OF dl cl j] a by (simp add: deref_def)
    have ks': "ks = key (snd (chain ?n ! j)) # map (key \<circ> snd) (drop (Suc j) (chain ?n)) @
                 map key (entries (drop (Suc (cur it)) (array h)))"
      using ks j by (simp flip: Cons_nth_drop_Suc)
    have "hashmap_iterator_peek h it = Inr (case ks of [] \<Rightarrow> 0 | k # ks' \<Rightarrow> k, it)"
      using False dr ks' by (simp add: hashmap_iterator_peek_def)
    with pos False show ?thesis by (intro exI[of _ it]) simp
  qed
qed

text \<open>
  On a well-formed map, at every position of an iterator (every state that a fresh iterator
  reaches by Peek and Next on the unchanged map, and every state whose chain pointer is the
  address of a node of the chain of the current slot), Peek returns the key that the Next
  call that follows it returns, which is also the key that Next would have returned
  without the Peek, and that key is \<open>NULL\<close> exactly when nothing is left. With a chain
  pointer Peek leaves the cursor as it is; without one it stores in the index field of the
  cursor the index of the first slot with a key from the current index on (the array size
  when there is none), so Peek writes to the cursor.
\<close>

lemma peek_agrees_with_next_at_position:
  assumes "wellformed h" and "at_position h it ks"
  shows "\<exists>k it_p it_n.
           hashmap_iterator_peek h it = Inr (k, it_p) \<and>
           hashmap_iterator_next h it_p = Inr (k, it_n) \<and>
           hashmap_iterator_next h it = Inr (k, it_n) \<and>
           (k = 0 \<longleftrightarrow> ks = []) \<and>
           (cur_linked it \<noteq> 0 \<longrightarrow> it_p = it) \<and>
           (cur_linked it = 0 \<longrightarrow>
              it_p = it\<lparr>cur := cur it_p\<rparr> \<and> cur it \<le> cur it_p \<and> cur it_p \<le> arraySize h \<and>
              (\<forall>j. cur it \<le> j \<and> j < cur it_p \<longrightarrow> key (ety (array h ! j)) = 0) \<and>
              (cur it_p < arraySize h \<longrightarrow> key (ety (array h ! cur it_p)) \<noteq> 0))"
proof -
  let ?k = "case ks of [] \<Rightarrow> 0 | k # ks' \<Rightarrow> k"
  from peek_at_position[OF assms] obtain it_p where
    big: "hashmap_iterator_peek h it = Inr (?k, it_p) \<and>
           at_position h it_p ks \<and>
           hashmap_iterator_next h it_p = hashmap_iterator_next h it \<and>
           (cur_linked it \<noteq> 0 \<longrightarrow> it_p = it) \<and>
           (cur_linked it = 0 \<longrightarrow>
              it_p = it\<lparr>cur := cur it_p\<rparr> \<and> cur it \<le> cur it_p \<and> cur it_p \<le> arraySize h \<and>
              (\<forall>j. cur it \<le> j \<and> j < cur it_p \<longrightarrow> key (ety (array h ! j)) = 0) \<and>
              (cur it_p < arraySize h \<longrightarrow> key (ety (array h ! cur it_p)) \<noteq> 0))" ..
  note p = big[THEN conjunct1]
    and n = big[THEN conjunct2, THEN conjunct2, THEN conjunct1]
    and c1 = big[THEN conjunct2, THEN conjunct2, THEN conjunct2, THEN conjunct1]
    and c2 = big[THEN conjunct2, THEN conjunct2, THEN conjunct2, THEN conjunct2]
  from next_at_position[OF assms] obtain it_n where
    x: "hashmap_iterator_next h it = Inr (?k, it_n)" and z: "ks = [] \<or> hd ks \<noteq> 0" by blast
  have kz: "?k = 0 \<longleftrightarrow> ks = []" using z by (cases ks) auto
  have x': "hashmap_iterator_next h it_p = Inr (?k, it_n)" using n x by simp
  show ?thesis
    apply (rule exI[of _ ?k], rule exI[of _ it_p], rule exI[of _ it_n])
    using p x' x kz c1 c2 by (intro conjI)
qed

lemma at_position_example:
  "at_position example_map (hashmap_iterator example_map) [1, 9, 2]"
  using at_position_start[of example_map]
  by (simp add: example_map_def entries_def slot_entries_def null_node_def null_entry_def)

lemma peek_agrees_with_next_at_position_example:
  "wellformed example_map \<and> at_position example_map (hashmap_iterator example_map) [1, 9, 2] \<and>
   (\<exists>k it_p it_n.
      hashmap_iterator_peek example_map (hashmap_iterator example_map) = Inr (k, it_p) \<and>
      hashmap_iterator_next example_map it_p = Inr (k, it_n) \<and>
      hashmap_iterator_next example_map (hashmap_iterator example_map) = Inr (k, it_n) \<and>
      k \<noteq> 0) \<and>
   hashmap_iterator_peek example_map (hashmap_iterator example_map) = Inr (1, \<lparr>cur = 1, cur_linked = 0\<rparr>) \<and>
   hashmap_iterator example_map = \<lparr>cur = 0, cur_linked = 0\<rparr>"
proof -
  have "hashmap_iterator_peek example_map (hashmap_iterator example_map) = Inr (1, \<lparr>cur = 1, cur_linked = 0\<rparr>)"
    by code_simp
  moreover have "hashmap_iterator example_map = \<lparr>cur = 0, cur_linked = 0\<rparr>"
    by (simp add: hashmap_iterator_def)
  moreover have "\<exists>k it_p it_n.
      hashmap_iterator_peek example_map (hashmap_iterator example_map) = Inr (k, it_p) \<and>
      hashmap_iterator_next example_map it_p = Inr (k, it_n) \<and>
      hashmap_iterator_next example_map (hashmap_iterator example_map) = Inr (k, it_n) \<and>
      k \<noteq> 0"
    using peek_agrees_with_next_at_position[OF wellformed_example at_position_example] by blast
  ultimately show ?thesis using wellformed_example at_position_example by blast
qed

subsection \<open>Removing while iterating\<close>

text \<open>
  Claim C1 at a slot with two chain nodes. The keys 1, 9 and 17 share slot 1 of eight.
  Next returns the root key 1 and leaves the chain pointer on the node of key 9; removing
  key 1 copies the entry of that node into the root and frees the node; the slot still has
  a chain (the node of key 17), so the next Next reads the entry of the freed node.
\<close>

theorem next_after_removing_current_reads_freed_node:
  "(case puts (hashmap_new hash_id cmp_eq 8) [(1, 10), (9, 90), (17, 170)] of
      Inl e \<Rightarrow> False
    | Inr h \<Rightarrow>
        (case hashmap_iterator_next h (hashmap_iterator h) of
           Inl e \<Rightarrow> False
         | Inr (k, it) \<Rightarrow>
             k = 1 \<and>
             (case hashmap_remove_entry h 1 of
                Inl e \<Rightarrow> False
              | Inr (entry, h') \<Rightarrow>
                  entry = \<lparr>key = 1, val = 10\<rparr> \<and>
                  hashmap_iterator_next h' it = Inl UseAfterFree \<and>
                  iterate 4 h' it = Some (Inl UseAfterFree))))"
  by code_simp

text \<open>
  Claim C2 at a slot with one chain node. The keys 1 and 9 share slot 1 of eight. Next
  returns the root key 1 and leaves the chain pointer on the node of key 9; removing key 9,
  which was not visited yet, unlinks and frees that node and leaves the slot without a
  chain; the next Next takes the slot for a promoted entry and returns key 1 a second
  time.
\<close>

theorem removing_unvisited_key_repeats_root:
  "(case puts (hashmap_new hash_id cmp_eq 8) [(1, 10), (9, 90)] of
      Inl e \<Rightarrow> False
    | Inr h \<Rightarrow>
        (case hashmap_iterator_next h (hashmap_iterator h) of
           Inl e \<Rightarrow> False
         | Inr (k, it) \<Rightarrow>
             k = 1 \<and>
             (case hashmap_remove_entry h 9 of
                Inl e \<Rightarrow> False
              | Inr (entry, h') \<Rightarrow>
                  entry = \<lparr>key = 9, val = 90\<rparr> \<and>
                  iterate 4 h' it = Some (Inr [1]))))"
  by code_simp

text \<open>
  Claim C10 fails on an iterator state that a removal leaves behind. The keys 1 and 9 share
  slot 1 of eight. Next returns the root key 1 and leaves the chain pointer on the node of
  key 9; removing key 1 copies the entry of that node into the root and frees the node, so
  the slot has no chain left. At this state of the iterator, with no further change of the
  map, \<open>hashmap_iterator_next\<close> finds the slot without a chain and returns the promoted
  key 9, while \<open>hashmap_iterator_peek\<close>, which has no such test, reads the key of the
  freed node.
\<close>

theorem peek_after_removing_current_reads_freed_node:
  "(case puts (hashmap_new hash_id cmp_eq 8) [(1, 10), (9, 90)] of
      Inl e \<Rightarrow> False
    | Inr h \<Rightarrow>
        (case hashmap_iterator_next h (hashmap_iterator h) of
           Inl e \<Rightarrow> False
         | Inr (k, it) \<Rightarrow>
             k = 1 \<and>
             (case hashmap_remove_entry h 1 of
                Inl e \<Rightarrow> False
              | Inr (entry, h') \<Rightarrow>
                  hashmap_iterator_next h' it = Inr (9, \<lparr>cur = 2, cur_linked = 0\<rparr>) \<and>
                  hashmap_iterator_peek h' it = Inl UseAfterFree)))"
  by code_simp

end
